theory Spec2Isabelle
  imports Complex_Main
begin

section \<open>Numeric conventions\<close>

text \<open>
  \<open>int\<close> and \<open>GLint\<close> are modelled as \<^typ>\<open>int\<close>; GL object names (\<open>GLuint\<close>) as
  \<^typ>\<open>nat\<close>, with \<open>0\<close> the name that is never a valid object.

  The C++ types \<open>float\<close> and \<open>double\<close> are modelled twice. Where a property is about
  which branch is taken, which quantities are combined and what sign they have (the
  swizzle, the mip levels, the shaders, the cubemap cross, the mip grid, the step table
  and the positivity of the zoom level), they are \<^typ>\<open>real\<close>: every branch, comparison
  and arithmetic operation of the source is kept, the rounding of IEEE arithmetic is
  not. Where a property depends on the rounding (the direction of a zoom step, the snap,
  zoom-to-fit), they are IEEE 754 values and every operation is correctly rounded.
\<close>

section \<open>Swizzle model: \<open>SetSwizzleFromSimple\<close>\<close>

text \<open>
  \<open>simpleSwizzle\<close> is a \<open>char[5]\<close> holding a NUL-terminated string. The model takes the
  characters stored in the array as a list; reading an index past the end of the list
  reads the terminator.
\<close>

definition NUL :: char where
  "NUL = CHR 0x00"

definition simpleSwizzle_at :: "string \<Rightarrow> nat \<Rightarrow> char" where
  "simpleSwizzle_at buf i = (if i < length buf then buf ! i else NUL)"

text \<open>\<open>if(c >= 'A' && c <= 'Z') c += 32;\<close>\<close>

definition to_lowercase :: "char \<Rightarrow> char" where
  "to_lowercase c =
     (if (of_char (CHR ''A'') :: nat) \<le> of_char c \<and> (of_char c :: nat) \<le> of_char (CHR ''Z'')
      then char_of ((of_char c :: nat) + 32) else c)"

text \<open>
  The outcome of the \<open>switch(c)\<close>: a new value for \<open>args[i]\<close>, the end of the string
  (\<open>i = 4\<close>), or the \<open>default\<close> label, which prints a warning and leaves \<open>args[i]\<close>.
\<close>

datatype switch_result = SetArg string | EndOfString | InvalidChar

definition swizzle_switch :: "char \<Rightarrow> switch_result" where
  "swizzle_switch c =
     (if c = CHR ''0'' then SetArg ''0.0''
      else if c = CHR ''1'' then SetArg ''1.0''
      else if c = CHR ''r'' \<or> c = CHR ''x'' then SetArg ''c.r''
      else if c = CHR ''g'' \<or> c = CHR ''y'' then SetArg ''c.g''
      else if c = CHR ''b'' \<or> c = CHR ''z'' then SetArg ''c.b''
      else if c = CHR ''a'' \<or> c = CHR ''w'' then SetArg ''c.a''
      else if c = NUL then EndOfString
      else InvalidChar)"

text \<open>\<open>const char* args[4] = { "0.0", "0.0", "0.0", "1.0" };\<close>\<close>

definition default_args :: "string list" where
  "default_args = [''0.0'', ''0.0'', ''0.0'', ''1.0'']"

text \<open>
  The loop \<open>for(int i=0; i<4; ++i)\<close>. On the terminator the source sets \<open>i = 4\<close>, the
  increment makes it 5 and the loop condition fails: the loop is left with \<open>args\<close> as it is.
\<close>

function swizzle_loop :: "string \<Rightarrow> nat \<Rightarrow> string list \<Rightarrow> string list" where
  "swizzle_loop buf i args =
     (if i < 4 then
        (case swizzle_switch (to_lowercase (simpleSwizzle_at buf i)) of
           SetArg s \<Rightarrow> swizzle_loop buf (i + 1) (args[i := s])
         | EndOfString \<Rightarrow> args
         | InvalidChar \<Rightarrow> swizzle_loop buf (i + 1) args)
      else args)"
  by pat_completeness auto
termination
  by (relation "measure (\<lambda>(buf, i, args). 4 - i)") auto

declare swizzle_loop.simps [simp del]

definition newline :: char where
  "newline = CHR 0x0A"

text \<open>\<open>AppendFormatted(swizzle, "c = vec4(%s, %s, %s, %s);\n", args[0], ..., args[3])\<close>\<close>

definition format_swizzle :: "string list \<Rightarrow> string" where
  "format_swizzle args =
     ''c = vec4('' @ args ! 0 @ '', '' @ args ! 1 @ '', '' @ args ! 2 @ '', '' @ args ! 3
       @ '');'' @ [newline]"

text \<open>The new value of the global \<open>swizzle\<close> (it is cleared first, then appended to).\<close>

definition SetSwizzleFromSimple :: "string \<Rightarrow> string" where
  "SetSwizzleFromSimple buf = format_swizzle (swizzle_loop buf 0 default_args)"

subsection \<open>The channel mapping as the specification words it\<close>

text \<open>
  The specification's table, case-insensitive: the source expression a selector character
  stands for, or nothing for a character outside the table.
\<close>

definition spec_selector :: "char \<Rightarrow> string option" where
  "spec_selector c =
     (if c \<in> {CHR ''r'', CHR ''R'', CHR ''x'', CHR ''X''} then Some ''c.r''
      else if c \<in> {CHR ''g'', CHR ''G'', CHR ''y'', CHR ''Y''} then Some ''c.g''
      else if c \<in> {CHR ''b'', CHR ''B'', CHR ''z'', CHR ''Z''} then Some ''c.b''
      else if c \<in> {CHR ''a'', CHR ''A'', CHR ''w'', CHR ''W''} then Some ''c.a''
      else if c = CHR ''0'' then Some ''0.0''
      else if c = CHR ''1'' then Some ''1.0''
      else None)"

text \<open>The positional default: 0.0 for channels 0 to 2, 1.0 for channel 3.\<close>

definition spec_default :: "nat \<Rightarrow> string" where
  "spec_default i = (if i < 3 then ''0.0'' else ''1.0'')"

text \<open>The string has ended at or before channel \<open>i\<close>.\<close>

definition terminated_by :: "string \<Rightarrow> nat \<Rightarrow> bool" where
  "terminated_by buf i = (NUL \<in> set (map (simpleSwizzle_at buf) [0 ..< Suc i]))"

text \<open>
  Channel \<open>i\<close> of the result: its positional default once the string has ended, the
  table's entry for its own character otherwise, and the default again for a character
  outside the table.
\<close>

definition spec_channel :: "string \<Rightarrow> nat \<Rightarrow> string" where
  "spec_channel buf i =
     (if terminated_by buf i then spec_default i
      else case spec_selector (simpleSwizzle_at buf i) of
             Some s \<Rightarrow> s
           | None \<Rightarrow> spec_default i)"

section \<open>Zoom controller: \<open>CalcZoomLevel\<close>\<close>

text \<open>The C library's \<open>round\<close>: to the nearest integer, halfway cases away from zero.\<close>

definition c_round :: "real \<Rightarrow> real" where
  "c_round x = (if 0 \<le> x then of_int \<lfloor>x + 1 / 2\<rfloor> else of_int \<lceil>x - 1 / 2\<rceil>)"

text \<open>
  \<open>CalcZoomLevel\<close> has two parts: the first \<open>if(increase) ... else ...\<close> statement changes
  \<open>zl\<close> by one step, the second \<open>if\<close> statement snaps the stepped value. They are two
  definitions here, composed in source order.
\<close>

definition zoom_step :: "real \<Rightarrow> bool \<Rightarrow> real" where
  "zoom_step zl increase =
     (if increase then
        (if zl \<ge> 2.0 then zl + 0.5
         else if zl \<ge> 1.0 then zl + 0.25
         else if zl \<ge> 0.125 then zl + 0.125
         else zl * sqrt 2.0)
      else
        (if zl \<le> 0.125 then zl * (1.0 / sqrt 2.0)
         else if zl \<le> 1.0 then zl - 0.125
         else if zl \<le> 2.0 then zl - 0.25
         else zl - 0.5))"






subsection \<open>The step table as the specification words it\<close>

text \<open>One range boundary per step size, the same when increasing and when decreasing.\<close>

definition spec_zoom_step :: "real \<Rightarrow> bool \<Rightarrow> real" where
  "spec_zoom_step zoom increase =
     (if zoom \<ge> 2.0 then (if increase then zoom + 0.5 else zoom - 0.5)
      else if 1.0 \<le> zoom then (if increase then zoom + 0.25 else zoom - 0.25)
      else if 0.125 \<le> zoom then (if increase then zoom + 0.125 else zoom - 0.125)
      else (if increase then zoom * sqrt 2 else zoom / sqrt 2))"

section \<open>IEEE 754 arithmetic\<close>

text \<open>
  The direction of a zoom step, the snap and the zoom-to-fit quotients depend on the
  rounding of the arithmetic, so \<open>CalcZoomLevel\<close> and \<open>ZoomFitToWindow\<close> are also
  modelled in the arithmetic the program runs in: \<open>double\<close> is IEEE 754 binary64,
  \<open>float\<close> is binary32, every operation is correctly rounded to the nearest value of
  its format, ties to even, and an expression of type \<open>float\<close> is evaluated in
  \<open>float\<close> (\<open>FLT_EVAL_METHOD\<close> 0).

  A format is given by its precision \<open>prec\<close> (the number of significand bits), the
  exponent \<open>emin\<close> of its smallest positive number and the exponent \<open>etop\<close> of the
  least significant bit of its largest numbers.
\<close>

record fp_format =
  prec :: nat
  emin :: int
  etop :: int

definition binary64 :: fp_format where
  "binary64 = \<lparr>prec = 53, emin = - 1074, etop = 971\<rparr>"

definition binary32 :: fp_format where
  "binary32 = \<lparr>prec = 24, emin = - 149, etop = 104\<rparr>"

text \<open>The largest finite number of a format (\<open>DBL_MAX\<close>, \<open>FLT_MAX\<close>).\<close>

definition largest :: "fp_format \<Rightarrow> real" where
  "largest fmt = (2 ^ prec fmt - 1) * 2 powi etop fmt"

text \<open>Rounding to the nearest integer, ties to the even one.\<close>

definition round_half_even :: "real \<Rightarrow> int" where
  "round_half_even q =
     (let f = \<lfloor>q\<rfloor>
      in if q - of_int f < 1 / 2 then f
         else if q - of_int f > 1 / 2 then f + 1
         else if even f then f else f + 1)"

text \<open>
  The exponent of the least significant bit of the numbers of the binade of \<open>x\<close>; it
  stops at \<open>emin\<close>, where the subnormal numbers are.
\<close>

definition lsb_exp :: "fp_format \<Rightarrow> real \<Rightarrow> int" where
  "lsb_exp fmt x = max (\<lfloor>log 2 \<bar>x\<bar>\<rfloor> - (int (prec fmt) - 1)) (emin fmt)"

text \<open>
  Rounding a real number to the nearest number of the format with unbounded exponent:
  to the nearest multiple of the least significant bit.
\<close>

definition rnd :: "fp_format \<Rightarrow> real \<Rightarrow> real" where
  "rnd fmt x =
     (if x = 0 then 0
      else of_int (round_half_even (x / 2 powi lsb_exp fmt x)) * 2 powi lsb_exp fmt x)"

text \<open>The numbers of a format, with unbounded exponent.\<close>

definition representable :: "fp_format \<Rightarrow> real set" where
  "representable fmt = {of_int m * 2 powi e | m e. \<bar>m\<bar> < 2 ^ prec fmt \<and> emin fmt \<le> e}"

abbreviation "D64 \<equiv> representable binary64"
abbreviation "rnd64 \<equiv> rnd binary64"
abbreviation "MAX64 \<equiv> largest binary64"
abbreviation "D32 \<equiv> representable binary32"
abbreviation "rnd32 \<equiv> rnd binary32"
abbreviation "MAX32 \<equiv> largest binary32"

text \<open>
  A floating-point value: a finite number (\<open>Fin 0\<close> is the positive zero), the negative
  zero, the two infinities or a NaN. A \<open>float\<close> value is a \<open>double\<close> value, so the
  promotion of a \<open>float\<close> to \<open>double\<close> changes nothing.
\<close>

datatype fp = Fin real | NegZero | PInf | NInf | NaN

fun fp_sign :: "fp \<Rightarrow> bool" where
  "fp_sign (Fin a) = (a < 0)"
| "fp_sign NegZero = True"
| "fp_sign PInf = False"
| "fp_sign NInf = True"
| "fp_sign NaN = False"

fun fp_val :: "fp \<Rightarrow> real" where
  "fp_val (Fin a) = a"
| "fp_val NegZero = 0"
| "fp_val PInf = 0"
| "fp_val NInf = 0"
| "fp_val NaN = 0"

fun is_zero :: "fp \<Rightarrow> bool" where
  "is_zero (Fin a) = (a = 0)"
| "is_zero NegZero = True"
| "is_zero PInf = False"
| "is_zero NInf = False"
| "is_zero NaN = False"

definition is_inf :: "fp \<Rightarrow> bool" where
  "is_inf x = (x = PInf \<or> x = NInf)"

definition signed_inf :: "bool \<Rightarrow> fp" where
  "signed_inf s = (if s then NInf else PInf)"

definition signed_zero :: "bool \<Rightarrow> fp" where
  "signed_zero s = (if s then NegZero else Fin 0)"

text \<open>
  The value an operation delivers when its exact result is \<open>v\<close> and the sign of the
  result is \<open>s\<close>: the rounded number, an infinity when that is beyond the largest finite
  number, a signed zero when it is zero.
\<close>

definition fp_round :: "fp_format \<Rightarrow> bool \<Rightarrow> real \<Rightarrow> fp" where
  "fp_round fmt s v =
     (let r = rnd fmt v
      in if \<bar>r\<bar> > largest fmt then signed_inf s
         else if r = 0 then signed_zero s
         else Fin r)"

text \<open>Addition; an exact zero sum is negative only when both operands are.\<close>

definition fadd :: "fp_format \<Rightarrow> fp \<Rightarrow> fp \<Rightarrow> fp" where
  "fadd fmt x y =
     (if x = NaN \<or> y = NaN then NaN
      else if is_inf x then (if is_inf y \<and> x \<noteq> y then NaN else x)
      else if is_inf y then y
      else
        let v = fp_val x + fp_val y
        in if v = 0 then signed_zero (fp_sign x \<and> fp_sign y)
           else fp_round fmt (v < 0) v)"

fun fneg :: "fp \<Rightarrow> fp" where
  "fneg (Fin a) = (if a = 0 then NegZero else Fin (- a))"
| "fneg NegZero = Fin 0"
| "fneg PInf = NInf"
| "fneg NInf = PInf"
| "fneg NaN = NaN"

definition fsub :: "fp_format \<Rightarrow> fp \<Rightarrow> fp \<Rightarrow> fp" where
  "fsub fmt x y = fadd fmt x (fneg y)"

definition fmul :: "fp_format \<Rightarrow> fp \<Rightarrow> fp \<Rightarrow> fp" where
  "fmul fmt x y =
     (if x = NaN \<or> y = NaN then NaN
      else if is_inf x \<or> is_inf y
        then (if is_zero x \<or> is_zero y then NaN else signed_inf (fp_sign x \<noteq> fp_sign y))
      else fp_round fmt (fp_sign x \<noteq> fp_sign y) (fp_val x * fp_val y))"

definition fdiv :: "fp_format \<Rightarrow> fp \<Rightarrow> fp \<Rightarrow> fp" where
  "fdiv fmt x y =
     (if x = NaN \<or> y = NaN then NaN
      else if is_inf x then (if is_inf y then NaN else signed_inf (fp_sign x \<noteq> fp_sign y))
      else if is_inf y then signed_zero (fp_sign x \<noteq> fp_sign y)
      else if is_zero y
        then (if is_zero x then NaN else signed_inf (fp_sign x \<noteq> fp_sign y))
      else fp_round fmt (fp_sign x \<noteq> fp_sign y) (fp_val x / fp_val y))"

fun fsqrt :: "fp_format \<Rightarrow> fp \<Rightarrow> fp" where
  "fsqrt fmt (Fin a) = (if a < 0 then NaN else fp_round fmt False (sqrt a))"
| "fsqrt fmt NegZero = NegZero"
| "fsqrt fmt PInf = PInf"
| "fsqrt fmt NInf = NaN"
| "fsqrt fmt NaN = NaN"

text \<open>The comparisons \<open><\<close>, \<open>==\<close>, \<open><=\<close>, \<open>>\<close> and \<open>>=\<close>: all false when an operand is a NaN.\<close>

definition flt :: "fp \<Rightarrow> fp \<Rightarrow> bool" where
  "flt x y =
     (x \<noteq> NaN \<and> y \<noteq> NaN \<and>
      (if x = PInf \<or> y = NInf then False
       else if x = NInf \<or> y = PInf then True
       else fp_val x < fp_val y))"

definition feq :: "fp \<Rightarrow> fp \<Rightarrow> bool" where
  "feq x y =
     (x \<noteq> NaN \<and> y \<noteq> NaN \<and>
      (if is_inf x \<or> is_inf y then x = y else fp_val x = fp_val y))"

definition fle :: "fp \<Rightarrow> fp \<Rightarrow> bool" where
  "fle x y = (flt x y \<or> feq x y)"

definition fgt :: "fp \<Rightarrow> fp \<Rightarrow> bool" where
  "fgt x y = flt y x"

definition fge :: "fp \<Rightarrow> fp \<Rightarrow> bool" where
  "fge x y = fle y x"

text \<open>
  The C library's \<open>floor\<close>, \<open>round\<close> and \<open>fabs\<close> on \<open>double\<close>; their results are
  integers or the operand, and need no rounding.
\<close>

fun ffloor :: "fp \<Rightarrow> fp" where
  "ffloor (Fin a) = Fin (of_int \<lfloor>a\<rfloor>)"
| "ffloor x = x"

fun fround :: "fp \<Rightarrow> fp" where
  "fround (Fin a) = (if c_round a = 0 \<and> a < 0 then NegZero else Fin (c_round a))"
| "fround x = x"

fun ffabs :: "fp \<Rightarrow> fp" where
  "ffabs (Fin a) = Fin \<bar>a\<bar>"
| "ffabs NegZero = Fin 0"
| "ffabs PInf = PInf"
| "ffabs NInf = PInf"
| "ffabs NaN = NaN"

text \<open>\<open>std::min(a, b)\<close> is \<open>(b < a) ? b : a\<close>.\<close>

definition std_min :: "fp \<Rightarrow> fp \<Rightarrow> fp" where
  "std_min a b = (if flt b a then b else a)"

text \<open>A decimal literal of the source, and the conversion of an \<open>int\<close>.\<close>

definition fp_literal :: "fp_format \<Rightarrow> real \<Rightarrow> fp" where
  "fp_literal fmt v = fp_round fmt (v < 0) v"

definition fp_of_int :: "fp_format \<Rightarrow> int \<Rightarrow> fp" where
  "fp_of_int fmt n = fp_round fmt (n < 0) (of_int n)"

text \<open>The values of a format: its finite numbers, the zeros, the infinities and NaN.\<close>

fun is_fp :: "fp_format \<Rightarrow> fp \<Rightarrow> bool" where
  "is_fp fmt (Fin a) = (a \<in> representable fmt \<and> \<bar>a\<bar> \<le> largest fmt)"
| "is_fp fmt x = True"

subsection \<open>\<open>CalcZoomLevel\<close> in double precision\<close>

text \<open>
  The two parts of \<open>CalcZoomLevel\<close> again, every operation now the \<open>double\<close> operation
  of the source. The literals 2.0, 1.0, 0.5, 0.25, 0.125 and 8.0 are doubles; 0.1 and
  0.05 are not and stand for the nearest double. \<open>sqrt\<close> is correctly rounded.
\<close>

definition zoom_step_double :: "fp \<Rightarrow> bool \<Rightarrow> fp" where
  "zoom_step_double zl increase =
     (if increase then
        (if fge zl (Fin 2.0) then fadd binary64 zl (Fin 0.5)
         else if fge zl (Fin 1.0) then fadd binary64 zl (Fin 0.25)
         else if fge zl (Fin 0.125) then fadd binary64 zl (Fin 0.125)
         else fmul binary64 zl (fsqrt binary64 (Fin 2.0)))
      else
        (if fle zl (Fin 0.125)
           then fmul binary64 zl (fdiv binary64 (Fin 1.0) (fsqrt binary64 (Fin 2.0)))
         else if fle zl (Fin 1.0) then fsub binary64 zl (Fin 0.125)
         else if fle zl (Fin 2.0) then fsub binary64 zl (Fin 0.25)
         else fsub binary64 zl (Fin 0.5)))"

definition zoom_snap_double :: "fp \<Rightarrow> fp" where
  "zoom_snap_double zl =
     (if fge zl (Fin 1.0) then
        (let nearestHalf = fmul binary64 (fround (fmul binary64 zl (Fin 2.0))) (Fin 0.5)
         in if fle (ffabs (fsub binary64 nearestHalf zl))
                   (std_min (Fin 0.25) (fmul binary64 (fp_literal binary64 0.1) zl))
            then nearestHalf else zl)
      else if fgt zl (Fin 0.25) then
        (let nearestEighth = fmul binary64 (fround (fmul binary64 zl (Fin 8.0))) (Fin 0.125)
         in if fle (ffabs (fsub binary64 nearestEighth zl)) (fp_literal binary64 0.05)
            then nearestEighth else zl)
      else zl)"

definition CalcZoomLevel_double :: "fp \<Rightarrow> bool \<Rightarrow> fp" where
  "CalcZoomLevel_double zl increase = zoom_snap_double (zoom_step_double zl increase)"

section \<open>Mip level controller: \<open>SetMipmapLevel\<close>\<close>

text \<open>
  The part of the GL state \<open>SetMipmapLevel\<close> touches: which texture is bound to each
  target, and the base and maximum mip level of each texture object.
  \<open>glTexParameteri\<close> acts on the texture bound to the target it is given.
\<close>

record gl_textures =
  bound_texture :: "nat \<Rightarrow> nat"
  base_level :: "nat \<Rightarrow> int"
  max_level :: "nat \<Rightarrow> int"

datatype tex_pname = GL_TEXTURE_BASE_LEVEL | GL_TEXTURE_MAX_LEVEL

definition glBindTexture :: "nat \<Rightarrow> nat \<Rightarrow> gl_textures \<Rightarrow> gl_textures" where
  "glBindTexture target tex gl = gl\<lparr>bound_texture := (bound_texture gl)(target := tex)\<rparr>"

fun glTexParameteri :: "nat \<Rightarrow> tex_pname \<Rightarrow> int \<Rightarrow> gl_textures \<Rightarrow> gl_textures" where
  "glTexParameteri target GL_TEXTURE_BASE_LEVEL v gl =
     gl\<lparr>base_level := (base_level gl)(bound_texture gl target := v)\<rparr>"
| "glTexParameteri target GL_TEXTURE_MAX_LEVEL v gl =
     gl\<lparr>max_level := (max_level gl)(bound_texture gl target := v)\<rparr>"

text \<open>
  What \<open>SetMipmapLevel\<close> reads of a \<open>texview::Texture\<close>: the members \<open>glTextureHandle\<close>
  and \<open>glTarget\<close>, and the result of \<open>GetNumMips()\<close> (the class is declared in
  \<open>texview.h\<close>; the function only reads these three values).
\<close>

record Texture =
  glTextureHandle :: nat
  glTarget :: nat
  GetNumMips :: int

definition SetMipmapLevel :: "Texture \<Rightarrow> int \<Rightarrow> bool \<Rightarrow> gl_textures \<Rightarrow> gl_textures" where
  "SetMipmapLevel texture mipLevel bindTexture gl =
     (let tex = glTextureHandle texture;
          numMips = GetNumMips texture
      in if tex = 0 \<or> numMips = 1 then gl
         else
           let gl1 = (if bindTexture then glBindTexture (glTarget texture) tex gl else gl);
               mipLevel' = min mipLevel (numMips - 1);
               baseLevel = (if mipLevel' < 0 then 0 else mipLevel');
               maxLevel = (if mipLevel' < 0 then numMips - 1 else mipLevel');
               gl2 = glTexParameteri (glTarget texture) GL_TEXTURE_BASE_LEVEL baseLevel gl1
           in glTexParameteri (glTarget texture) GL_TEXTURE_MAX_LEVEL maxLevel gl2)"

text \<open>The level the specification asks for: the request clamped to \<open>[0, numMips - 1]\<close>.\<close>

definition clamp_level :: "int \<Rightarrow> int \<Rightarrow> int" where
  "clamp_level numMips requestedLevel = max 0 (min requestedLevel (numMips - 1))"

section \<open>Shader synthesizer: \<open>UpdateShaders\<close>\<close>

text \<open>
  The state \<open>UpdateShaders\<close> works on: the global \<open>shaderProgram\<close>, the shader and
  program objects alive in the GL context, the program installed by \<open>glUseProgram\<close>,
  and the globals \<open>simpleSwizzle\<close>, \<open>useSimpleSwizzle\<close> and \<open>swizzle\<close>. The sampler
  declaration and the global \<open>texSampleAndNormalize\<close>, which only enter the source text
  handed to the compiler, are left out.
\<close>

record shader_state =
  shaderProgram :: nat
  live_shaders :: "nat set"
  live_programs :: "nat set"
  used_program :: nat
  simpleSwizzle :: string
  useSimpleSwizzle :: bool
  swizzle :: string

text \<open>
  What the GL implementation answers during one call: the names \<open>glCreateShader\<close> and
  \<open>glCreateProgram\<close> return (0 when no object could be created), the two
  \<open>GL_COMPILE_STATUS\<close> values and the \<open>GL_LINK_STATUS\<close>. The text of the shader sources
  decides these answers inside the driver; here the answers are inputs.
\<close>

record gl_answers =
  vertex_name :: nat
  vertex_compiled :: bool
  fragment_name :: nat
  fragment_compiled :: bool
  program_name :: nat
  program_linked :: bool

definition glDeleteShader :: "nat \<Rightarrow> shader_state \<Rightarrow> shader_state" where
  "glDeleteShader name st = st\<lparr>live_shaders := live_shaders st - {name}\<rparr>"

text \<open>
  \<open>CompileShader\<close>: \<open>glCreateShader\<close> makes the shader object; when it did not compile it
  is deleted again and the result is 0, otherwise the result is its name.
\<close>

definition CompileShader :: "nat \<Rightarrow> bool \<Rightarrow> shader_state \<Rightarrow> nat \<times> shader_state" where
  "CompileShader name compiled st =
     (let st1 = (if name = 0 then st
                 else st\<lparr>live_shaders := insert name (live_shaders st)\<rparr>)
      in if \<not> compiled then (0, glDeleteShader name st1)
         else (name, st1))"

definition glDeleteProgram :: "nat \<Rightarrow> shader_state \<Rightarrow> shader_state" where
  "glDeleteProgram name st = st\<lparr>live_programs := live_programs st - {name}\<rparr>"

definition glUseProgram :: "nat \<Rightarrow> shader_state \<Rightarrow> shader_state" where
  "glUseProgram name st = st\<lparr>used_program := name\<rparr>"

text \<open>
  \<open>CreateShaderProgram\<close>: 0 when \<open>glCreateProgram\<close> fails; 0 after \<open>glDeleteProgram\<close> of
  the new program when linking fails; the new program's name otherwise.
\<close>

definition CreateShaderProgram :: "nat \<Rightarrow> bool \<Rightarrow> shader_state \<Rightarrow> nat \<times> shader_state" where
  "CreateShaderProgram prog linked st =
     (if prog = 0 then (0, st)
      else
        let st1 = st\<lparr>live_programs := insert prog (live_programs st)\<rparr>
        in if \<not> linked then (0, glDeleteProgram prog st1)
           else (prog, st1))"

definition UpdateShaders :: "gl_answers \<Rightarrow> shader_state \<Rightarrow> bool \<times> shader_state" where
  "UpdateShaders gl st =
     (let (shader0, st1) = CompileShader (vertex_name gl) (vertex_compiled gl) st
      in if shader0 = 0 then (False, st1)
         else
           let st2 = (if useSimpleSwizzle st1
                      then st1\<lparr>swizzle := SetSwizzleFromSimple (simpleSwizzle st1)\<rparr>
                      else st1);
               (shader1, st3) = CompileShader (fragment_name gl) (fragment_compiled gl) st2
           in if shader1 = 0 then (False, glDeleteShader shader0 st3)
              else
                let (prog, st4) = CreateShaderProgram (program_name gl) (program_linked gl) st3;
                    st5 = glDeleteShader shader1 (glDeleteShader shader0 st4)
                in if prog = 0 then (False, st5)
                   else
                     let st6 = (if shaderProgram st5 \<noteq> 0
                                then glDeleteProgram (shaderProgram st5) st5 else st5);
                         st7 = st6\<lparr>shaderProgram := prog\<rparr>
                     in (True, glUseProgram (shaderProgram st7) st7))"

text \<open>Every stage of the build succeeds: both shaders compile and the program links.\<close>

definition build_succeeds :: "gl_answers \<Rightarrow> bool" where
  "build_succeeds gl \<longleftrightarrow>
     vertex_compiled gl \<and> vertex_name gl \<noteq> 0 \<and>
     fragment_compiled gl \<and> fragment_name gl \<noteq> 0 \<and>
     program_linked gl \<and> program_name gl \<noteq> 0"

section \<open>Cubemap drawing: \<open>DrawCubeQuad\<close> and the cross layout of \<open>DrawTexture\<close>\<close>

text \<open>The struct \<open>vec4\<close>; its constructor defaults \<open>z\<close> and \<open>w\<close> to 0.\<close>

datatype vec4 = Vec4 (vx: real) (vy: real) (vz: real) (vw: real)

definition vec4_xy :: "real \<Rightarrow> real \<Rightarrow> vec4" where
  "vec4_xy x y = Vec4 x y 0 0"

definition vec4_xyz :: "real \<Rightarrow> real \<Rightarrow> real \<Rightarrow> vec4" where
  "vec4_xyz x y z = Vec4 x y z 0"

definition set_w :: "real \<Rightarrow> vec4 \<Rightarrow> vec4" where
  "set_w a v = Vec4 (vx v) (vy v) (vz v) a"

text \<open>The values of \<open>enum CubeFaceIndex\<close>; the functions take the face as an \<open>int\<close>.\<close>

definition FI_XPOS :: int where "FI_XPOS = 0"
definition FI_XNEG :: int where "FI_XNEG = 1"
definition FI_YPOS :: int where "FI_YPOS = 2"
definition FI_YNEG :: int where "FI_YNEG = 3"
definition FI_ZPOS :: int where "FI_ZPOS = 4"
definition FI_ZNEG :: int where "FI_ZNEG = 5"

text \<open>C's \<open>%\<close> on \<open>int\<close>: the remainder of the division that truncates towards zero.\<close>

definition c_rem :: "int \<Rightarrow> int \<Rightarrow> int" where
  "c_rem a b = sgn a * (\<bar>a\<bar> mod \<bar>b\<bar>)"

text \<open>
  Reading a C array at an \<open>int\<close> index: nothing is known of a read outside the array.
\<close>

definition array_at :: "'a list \<Rightarrow> int \<Rightarrow> 'a option" where
  "array_at xs k = (if 0 \<le> k \<and> k < int (length xs) then Some (xs ! nat k) else None)"

text \<open>
  The \<open>switch(faceIndex)\<close> inside the loop over \<open>mapCoords\<close>. It has no \<open>default\<close>: for
  any other face index \<open>tmp\<close> stays uninitialised, which is \<open>None\<close> here.
\<close>

definition cube_face_switch :: "int \<Rightarrow> vec4 \<Rightarrow> vec4 option" where
  "cube_face_switch faceIndex mc =
     (if faceIndex = FI_XPOS then Some (vec4_xyz 1.0 (- vy mc) (- vx mc))
      else if faceIndex = FI_XNEG then Some (vec4_xyz (- 1.0) (- vy mc) (vx mc))
      else if faceIndex = FI_YPOS then Some (vec4_xyz (vx mc) 1.0 (vy mc))
      else if faceIndex = FI_YNEG then Some (vec4_xyz (vx mc) (- 1.0) (- vy mc))
      else if faceIndex = FI_ZPOS then Some (vec4_xyz (vx mc) (- vy mc) 1.0)
      else if faceIndex = FI_ZNEG then Some (vec4_xyz (- vx mc) (- vy mc) (- 1.0))
      else None)"

text \<open>One round of the loop: \<open>mc = tmp; mc.w = arrayIndex;\<close>\<close>

definition map_coord :: "int \<Rightarrow> int \<Rightarrow> vec4 \<Rightarrow> vec4 option" where
  "map_coord faceIndex arrayIndex mc =
     map_option (set_w (of_int arrayIndex)) (cube_face_switch faceIndex mc)"

text \<open>
  \<open>mapCoordsCopy[i] = mapCoords[(i+rotationSteps) % 4]\<close> for \<open>i\<close> from 0 to 3, then the
  copy back.
\<close>

definition rotate_mapCoords :: "int \<Rightarrow> vec4 option list \<Rightarrow> vec4 option list" where
  "rotate_mapCoords rotationSteps mapCoords =
     map (\<lambda>i. case array_at mapCoords (c_rem (i + rotationSteps) 4) of
                 None \<Rightarrow> None | Some c \<Rightarrow> c)
         [0, 1, 2, 3]"

text \<open>
  \<open>DrawCubeQuad\<close>. The globals \<open>mipmapLevel\<close> and \<open>cubeCrossVariant\<close> are parameters. The
  result is the GL texture state and the vertices issued between \<open>glBegin\<close> and \<open>glEnd\<close>,
  each a texture coordinate (\<open>glTexCoord4fv\<close>) with its position (\<open>glVertex2f\<close>). With
  handle 0 nothing is issued.
\<close>

definition DrawCubeQuad ::
    "Texture \<Rightarrow> int \<Rightarrow> int \<Rightarrow> int \<Rightarrow> int \<Rightarrow> int \<Rightarrow> real \<times> real \<Rightarrow> real \<times> real \<Rightarrow> real \<times> real
       \<Rightarrow> gl_textures \<Rightarrow> gl_textures \<times> (vec4 option \<times> (real \<times> real)) list" where
  "DrawCubeQuad texture mipmapLevel cubeCrossVariant mipLevel faceIndex arrayIndex pos sz
       texCoordMax gl =
     (let tex = glTextureHandle texture
      in if tex = 0 then (gl, [])
         else
           let gl1 = glBindTexture (glTarget texture) tex gl;
               gl2 = SetMipmapLevel texture (if mipLevel < 0 then mipmapLevel else mipLevel)
                       False gl1;
               minx = 0 * 2.0 - 1.0;
               miny = 0 * 2.0 - 1.0;
               maxx = fst texCoordMax * 2.0 - 1.0;
               maxy = snd texCoordMax * 2.0 - 1.0;
               mapCoords = map (map_coord faceIndex arrayIndex)
                             [vec4_xy minx miny, vec4_xy minx maxy,
                              vec4_xy maxx maxy, vec4_xy maxx miny];
               mapCoords' =
                 (if cubeCrossVariant > 0 \<and> (faceIndex = FI_YPOS \<or> faceIndex = FI_YNEG)
                  then rotate_mapCoords
                         (if faceIndex = FI_YPOS then cubeCrossVariant
                          else 4 - cubeCrossVariant)
                         mapCoords
                  else mapCoords)
           in (gl2,
               [(mapCoords' ! 0, (fst pos, snd pos)),
                (mapCoords' ! 1, (fst pos, snd pos + snd sz)),
                (mapCoords' ! 2, (fst pos + fst sz, snd pos + snd sz)),
                (mapCoords' ! 3, (fst pos + fst sz, snd pos))]))"

text \<open>
  The cross layout of \<open>DrawTexture\<close> (the branch for \<open>tex.IsCubemap()\<close>). A tile is one
  call of \<open>DrawCubeQuad\<close>: its mip level argument, face, array index, position and size
  (the variable \<open>size\<close> of the source is \<open>sz\<close> here).
\<close>

record cube_tile =
  tile_mip :: int
  tile_face :: int
  tile_array :: int
  tile_pos :: "real \<times> real"
  tile_size :: "real \<times> real"

definition middleIndices :: "int list" where
  "middleIndices = [FI_XNEG, FI_ZPOS, FI_XPOS, FI_ZNEG]"

text \<open>
  \<open>for(int i=cubeCrossVariant, n=cubeCrossVariant+4; i < n; ++i)\<close>. A read outside
  \<open>middleIndices\<close> makes the result \<open>None\<close>.
\<close>

function cross_middle ::
    "int \<Rightarrow> int \<Rightarrow> real \<Rightarrow> real \<Rightarrow> real \<Rightarrow> int \<Rightarrow> real \<times> real \<Rightarrow> cube_tile list option" where
  "cross_middle i n posX posY offset arrayIndex sz =
     (if i < n then
        (case array_at middleIndices (c_rem i 4) of
           None \<Rightarrow> None
         | Some faceIndex \<Rightarrow>
             map_option
               ((#) \<lparr>tile_mip = - 1, tile_face = faceIndex, tile_array = arrayIndex,
                     tile_pos = (posX, posY), tile_size = sz\<rparr>)
               (cross_middle (i + 1) n (posX + offset) posY offset arrayIndex sz))
      else Some [])"
  by pat_completeness auto
termination
  by (relation "measure (\<lambda>(i, n, posX, posY, offset, arrayIndex, sz). nat (n - i))") auto

declare cross_middle.simps [simp del]

definition DrawTexture_cube ::
    "real \<Rightarrow> real \<Rightarrow> int \<Rightarrow> int \<Rightarrow> int \<Rightarrow> cube_tile list option" where
  "DrawTexture_cube texW texH spacingBetweenMips cubeCrossVariant arrayIndex =
     (let offset = texW + of_int spacingBetweenMips;
          sz = (texW, texH);
          top = \<lparr>tile_mip = - 1, tile_face = FI_YPOS, tile_array = arrayIndex,
                  tile_pos = (offset, 0.0), tile_size = sz\<rparr>;
          posY = 0.0 + offset;
          middle = cross_middle cubeCrossVariant (cubeCrossVariant + 4) 0.0 posY offset
                     arrayIndex sz;
          bottom = \<lparr>tile_mip = - 1, tile_face = FI_YNEG, tile_array = arrayIndex,
                     tile_pos = (offset, posY + offset), tile_size = sz\<rparr>
      in map_option (\<lambda>tiles. top # tiles @ [bottom]) middle)"

subsection \<open>The per-face basis table as the specification gives it\<close>

definition spec_face_basis :: "int \<Rightarrow> real \<Rightarrow> real \<Rightarrow> real \<times> real \<times> real" where
  "spec_face_basis face u v =
     (if face = FI_XPOS then (1, - v, - u)
      else if face = FI_XNEG then (- 1, - v, u)
      else if face = FI_YPOS then (u, 1, v)
      else if face = FI_YNEG then (u, - 1, - v)
      else if face = FI_ZPOS then (u, - v, 1)
      else (- u, - v, - 1))"

text \<open>
  The texture coordinate the specification assigns to a corner \<open>(u, v)\<close> of a face: the
  direction from the table, with the array layer as fourth component.
\<close>

definition spec_corner :: "int \<Rightarrow> int \<Rightarrow> real \<times> real \<Rightarrow> vec4" where
  "spec_corner face layer uv =
     (case spec_face_basis face (fst uv) (snd uv) of
        (X, Y, Z) \<Rightarrow> Vec4 X Y Z (of_int layer))"

text \<open>
  The four corners of the quad in drawing order, in quad-local coordinates: the corner
  \<open>(0, 0)\<close> and \<open>texCoordMax\<close> scaled from \<open>[0, 1]\<close> to \<open>[-1, 1]\<close>.
\<close>

definition quad_corners :: "real \<times> real \<Rightarrow> (real \<times> real) list" where
  "quad_corners texCoordMax =
     (let maxu = 2 * fst texCoordMax - 1; maxv = 2 * snd texCoordMax - 1
      in [(- 1, - 1), (- 1, maxv), (maxu, maxv), (maxu, - 1)])"

text \<open>The number of cyclic steps the specification gives for a face and a variant.\<close>

definition spec_rotation :: "int \<Rightarrow> int \<Rightarrow> nat" where
  "spec_rotation face variant =
     (if variant \<noteq> 0 \<and> face = FI_YPOS then nat variant
      else if variant \<noteq> 0 \<and> face = FI_YNEG then nat (4 - variant)
      else 0)"

section \<open>Zoom to fit: \<open>ZoomFitToWindow\<close>\<close>

text \<open>The globals \<open>zoomLevel\<close>, \<open>transX\<close> and \<open>transY\<close>, of type \<open>double\<close>.\<close>

record zoom_pan =
  zoomLevel :: fp
  transX :: fp
  transY :: fp

text \<open>
  \<open>display_w\<close> and \<open>display_h\<close> are the \<open>int\<close>s that \<open>glfwGetFramebufferSize\<close> returns,
  \<open>imGuiMenuWidth\<close> is the global of that name, a \<open>float\<close>, and \<open>tw\<close> and \<open>th\<close> are
  \<open>float\<close> parameters. The types of the source decide the precision of each operation:
  \<open>tw *= 4.0f\<close>, \<open>th *= 3.0f\<close>, \<open>display_w - imGuiMenuWidth\<close> and \<open>display_h / th\<close> have
  \<open>float\<close> operands (an \<open>int\<close> operand is converted to \<open>float\<close>) and are single-precision
  operations, whose result is then stored in a \<open>double\<close>; \<open>winW / tw\<close>, \<open>display_h/zw\<close>,
  \<open>winW/zh\<close>, the subtractions of \<open>th\<close> and \<open>tw\<close> and the multiplications by 0.5 have a
  \<open>double\<close> operand and are double-precision operations. A division by zero gives an
  infinity or a NaN, and the function stores what the arithmetic gives.
\<close>

definition ZoomFitToWindow ::
    "int \<Rightarrow> int \<Rightarrow> fp \<Rightarrow> fp \<Rightarrow> fp \<Rightarrow> bool \<Rightarrow> zoom_pan \<Rightarrow> zoom_pan" where
  "ZoomFitToWindow display_w display_h imGuiMenuWidth tw th isCube st =
     (let tw = (if isCube then fmul binary32 tw (Fin 4.0) else tw);
          th = (if isCube then fmul binary32 th (Fin 3.0) else th);
          winW = fsub binary32 (fp_of_int binary32 display_w) imGuiMenuWidth;
          zw = fdiv binary64 winW tw;
          zh = fdiv binary32 (fp_of_int binary32 display_h) th
      in if flt zw zh then
           st\<lparr>zoomLevel := zw,
              transX := Fin 0,
              transY := ffloor (fmul binary64 (Fin 0.5)
                          (fsub binary64 (fdiv binary64 (fp_of_int binary64 display_h) zw) th))\<rparr>
         else
           st\<lparr>zoomLevel := zh,
              transX := (if isCube then Fin 0.0
                         else ffloor (fmul binary64 (Fin 0.5)
                                (fsub binary64 (fdiv binary64 winW zh) tw))),
              transY := Fin 0\<rparr>)"

subsection \<open>Zoom to fit as the specification words it\<close>





section \<open>Mip grid: the \<open>MIPMAPS_COMPACT\<close> branch of \<open>DrawTexture\<close> with \<open>viewAtSameSize\<close>\<close>

text \<open>A tile is one call of \<open>DrawQuad\<close>: mip level, array index, position and size.\<close>

record quad_tile =
  quad_mip :: int
  quad_array :: int
  quad_pos :: "real \<times> real"
  quad_size :: "real \<times> real"

text \<open>
  The loop \<open>for(int i=0; i < numMips; ++i)\<close>, from index \<open>i\<close> on, with the loop variables
  \<open>posX\<close>, \<open>posY\<close>, \<open>hOffset\<close> and \<open>rowNum\<close>. The result is the list of tiles and the final
  \<open>rowNum\<close>; it is \<open>None\<close> when \<open>(i+1) % numHor\<close> divides by zero.
\<close>

function compact_loop ::
    "nat \<Rightarrow> nat \<Rightarrow> int \<Rightarrow> real \<Rightarrow> real \<Rightarrow> real \<Rightarrow> real \<Rightarrow> int \<Rightarrow> int \<Rightarrow> real \<times> real
       \<Rightarrow> (quad_tile list \<times> int) option" where
  "compact_loop i numMips numHor posX posY hOffset vOffset rowNum arrayIndex sz =
     (if i < numMips then
        (if numHor = 0 then None
         else
           map_option
             (\<lambda>(tiles, rows).
                (\<lparr>quad_mip = int i, quad_array = arrayIndex, quad_pos = (posX, posY),
                   quad_size = sz\<rparr> # tiles, rows))
             (if c_rem (int i + 1) numHor = 0
              then compact_loop (i + 1) numMips numHor posX (posY + vOffset) (- hOffset)
                     vOffset (rowNum + 1) arrayIndex sz
              else compact_loop (i + 1) numMips numHor (posX + hOffset) posY hOffset
                     vOffset rowNum arrayIndex sz))
      else Some ([], rowNum))"
  by pat_completeness auto
termination
  by (relation "measure (\<lambda>(i, numMips, numHor, posX, posY, hOffset, vOffset, rowNum,
                            arrayIndex, sz). numMips - i)") auto

declare compact_loop.simps [simp del]

text \<open>\<open>int numHor = ceil(sqrtf(numMips * texH / texW));\<close>\<close>

definition numHor_of :: "int \<Rightarrow> real \<Rightarrow> real \<Rightarrow> int" where
  "numHor_of numMips texW texH = \<lceil>sqrt (of_int numMips * texH / texW)\<rceil>"

text \<open>
  The branch itself. The conversion of the square root to \<open>int\<close> is undefined for a zero
  width or a negative quotient; the result is \<open>None\<close> then. A mip count below 1 runs the
  loop zero times.
\<close>

definition DrawTexture_compact ::
    "real \<Rightarrow> real \<Rightarrow> int \<Rightarrow> int \<Rightarrow> int \<Rightarrow> (quad_tile list \<times> int) option" where
  "DrawTexture_compact texW texH numMips spacingBetweenMips arrayIndex =
     (if texW = 0 \<or> of_int numMips * texH / texW < 0 then None
      else
        let numHor = numHor_of numMips texW texH;
            hOffset = texW + of_int spacingBetweenMips;
            vOffset = texH + of_int spacingBetweenMips
        in compact_loop 0 (nat numMips) numHor 0.0 0.0 hOffset vOffset 0 arrayIndex
             (texW, texH))"

text \<open>The number of rows a list of tiles occupies: the number of different \<open>posY\<close>.\<close>

definition row_count :: "quad_tile list \<Rightarrow> nat" where
  "row_count tiles = length (remdups (map (\<lambda>t. snd (quad_pos t)) tiles))"

subsection \<open>The serpentine grid in closed form\<close>

text \<open>
  Row and column of tile \<open>i\<close> in a grid of \<open>n\<close> tiles per row that runs left to right in
  even rows and right to left in odd rows.
\<close>

definition grid_row :: "nat \<Rightarrow> nat \<Rightarrow> nat" where
  "grid_row n i = i div n"

definition grid_col :: "nat \<Rightarrow> nat \<Rightarrow> nat" where
  "grid_col n i = (if even (i div n) then i mod n else n - 1 - i mod n)"

text \<open>Tile \<open>k\<close> of that grid, with cells \<open>h\<close> wide and \<open>v\<close> high.\<close>

definition grid_tile :: "nat \<Rightarrow> real \<Rightarrow> real \<Rightarrow> int \<Rightarrow> real \<times> real \<Rightarrow> nat \<Rightarrow> quad_tile" where
  "grid_tile n h v a sz k =
     \<lparr>quad_mip = int k, quad_array = a,
      quad_pos = (real (grid_col n k) * h, real (grid_row n k) * v), quad_size = sz\<rparr>"

text \<open>
  Position \<open>q\<close> is one cell to the right of, to the left of, or below position \<open>p\<close>.
\<close>

definition grid_neighbours :: "real \<Rightarrow> real \<Rightarrow> real \<times> real \<Rightarrow> real \<times> real \<Rightarrow> bool" where
  "grid_neighbours h v p q \<longleftrightarrow>
     q = (fst p + h, snd p) \<or> q = (fst p - h, snd p) \<or> q = (fst p, snd p + v)"

text \<open>
  Two tiles of the same size share an edge: side by side with the left edge of one on the
  right edge of the other, or one on top of the other likewise.
\<close>

definition share_edge :: "quad_tile \<Rightarrow> quad_tile \<Rightarrow> bool" where
  "share_edge s t \<longleftrightarrow>
     (snd (quad_pos s) = snd (quad_pos t) \<and>
        \<bar>fst (quad_pos s) - fst (quad_pos t)\<bar> = fst (quad_size s)) \<or>
     (fst (quad_pos s) = fst (quad_pos t) \<and>
        \<bar>snd (quad_pos s) - snd (quad_pos t)\<bar> = snd (quad_size s))"

text \<open>The row count the specification states, with \<open>aspectRatio = texH / texW\<close>.\<close>

definition spec_row_count :: "int \<Rightarrow> real \<Rightarrow> real \<Rightarrow> int" where
  "spec_row_count numMips texW texH = \<lceil>sqrt (of_int numMips * (texH / texW))\<rceil>"

section \<open>Swizzle model: proofs\<close>

lemma char_eq_nat: "(c = d) = ((of_char c :: nat) = of_char d)"
  by simp

lemma of_char_to_lowercase:
  "(of_char (to_lowercase c) :: nat) =
     (if 65 \<le> (of_char c :: nat) \<and> (of_char c :: nat) \<le> 90 then of_char c + 32
      else of_char c)"
  by (simp add: to_lowercase_def)

text \<open>Lower-casing followed by the \<open>switch\<close> is the case-insensitive table.\<close>

lemma swizzle_switch_to_lowercase:
  "swizzle_switch (to_lowercase c) =
     (if c = NUL then EndOfString
      else case spec_selector c of Some s \<Rightarrow> SetArg s | None \<Rightarrow> InvalidChar)"
  unfolding swizzle_switch_def spec_selector_def NUL_def insert_iff empty_iff
  by (simp add: char_eq_nat[of "to_lowercase c"] char_eq_nat[of c] of_char_to_lowercase)

text \<open>
  What the loop started at index \<open>i\<close> leaves in slot \<open>j\<close>: slots below \<open>i\<close> and slots at
  or after the first terminator are untouched, every other slot is decided by its own
  character alone.
\<close>

lemma swizzle_loop_nth:
  "length args = 4 \<Longrightarrow> j < 4 \<Longrightarrow>
   swizzle_loop buf i args ! j =
     (if j < i then args ! j
      else if NUL \<in> set (map (simpleSwizzle_at buf) [i ..< Suc j]) then args ! j
      else case spec_selector (simpleSwizzle_at buf j) of
             Some s \<Rightarrow> s | None \<Rightarrow> args ! j)"
proof (induction buf i args rule: swizzle_loop.induct)
  case (1 buf i args)
  let ?c = "to_lowercase (simpleSwizzle_at buf i)"
  show ?case
  proof (cases "i < 4")
    case False
    then show ?thesis using 1(4) by (simp add: swizzle_loop.simps[of buf i args])
  next
    case True
    note lt = True
    show ?thesis
    proof (cases "simpleSwizzle_at buf i = NUL")
      case True
      then have sw: "swizzle_switch ?c = EndOfString"
        by (simp add: swizzle_switch_to_lowercase)
      have eq: "swizzle_loop buf i args = args"
        by (subst swizzle_loop.simps) (simp add: lt sw)
      show ?thesis
      proof (cases "j < i")
        case True then show ?thesis using eq by simp
      next
        case False
        then have "[i ..< Suc j] = i # [Suc i ..< Suc j]" by (simp add: upt_conv_Cons)
        then show ?thesis using eq True False by simp
      qed
    next
      case False
      note nz = False
      show ?thesis
      proof (cases "spec_selector (simpleSwizzle_at buf i)")
        case None
        then have sw: "swizzle_switch ?c = InvalidChar"
          using nz by (simp add: swizzle_switch_to_lowercase)
        have eq: "swizzle_loop buf i args = swizzle_loop buf (i + 1) args"
          by (subst swizzle_loop.simps) (simp add: lt sw)
        have IH: "swizzle_loop buf (i + 1) args ! j =
           (if j < i + 1 then args ! j
            else if NUL \<in> set (map (simpleSwizzle_at buf) [i + 1 ..< Suc j]) then args ! j
            else case spec_selector (simpleSwizzle_at buf j) of
                   Some s \<Rightarrow> s | None \<Rightarrow> args ! j)"
          using 1(2)[OF lt sw 1(3) 1(4)] .
        show ?thesis
        proof (cases "j < i")
          case True then show ?thesis using eq IH by simp
        next
          case False
          then have "[i ..< Suc j] = i # [Suc i ..< Suc j]" by (simp add: upt_conv_Cons)
          then show ?thesis using eq IH False nz None
            by (cases "j = i") (auto split: option.splits)
        qed
      next
        case (Some s)
        then have sw: "swizzle_switch ?c = SetArg s"
          using nz by (simp add: swizzle_switch_to_lowercase)
        have eq: "swizzle_loop buf i args = swizzle_loop buf (i + 1) (args[i := s])"
          by (subst swizzle_loop.simps) (simp add: lt sw)
        have len: "length (args[i := s]) = 4" using 1(3) by simp
        have IH: "swizzle_loop buf (i + 1) (args[i := s]) ! j =
           (if j < i + 1 then args[i := s] ! j
            else if NUL \<in> set (map (simpleSwizzle_at buf) [i + 1 ..< Suc j])
                 then args[i := s] ! j
            else case spec_selector (simpleSwizzle_at buf j) of
                   Some s' \<Rightarrow> s' | None \<Rightarrow> args[i := s] ! j)"
          using 1(1)[OF lt sw len 1(4)] .
        show ?thesis
        proof (cases "j < i")
          case True then show ?thesis using eq IH by simp
        next
          case False
          then have "[i ..< Suc j] = i # [Suc i ..< Suc j]" by (simp add: upt_conv_Cons)
          then show ?thesis using eq IH False nz Some 1(3) lt
            by (cases "j = i") (auto split: option.splits)
        qed
      qed
    qed
  qed
qed

lemma default_args_nth: "j < 4 \<Longrightarrow> default_args ! j = spec_default j"
proof -
  assume "j < 4"
  then have "j = 0 \<or> j = 1 \<or> j = 2 \<or> j = 3" by arith
  then show ?thesis by (auto simp: default_args_def spec_default_def)
qed

lemma swizzle_loop_spec:
  "j < 4 \<Longrightarrow> swizzle_loop buf 0 default_args ! j = spec_channel buf j"
  using swizzle_loop_nth[of default_args j buf 0]
  by (simp add: default_args_nth spec_channel_def terminated_by_def
        default_args_def[THEN arg_cong, of length] split: option.splits)

text \<open>
  Claim C1. For every content of \<open>simpleSwizzle\<close>, the generated statement is
  \<open>c = vec4(A, B, C, D);\<close> followed by a newline, where each of the four channels is
  decided on its own: once the terminator has been met at or before the channel it is the
  positional default (0.0 for channels 0 to 2, 1.0 for channel 3); otherwise it is the
  entry of the case-insensitive table for the channel's character (r/x red, g/y green,
  b/z blue, a/w alpha, 0 and 1 the constants), and the positional default for a
  character outside the table.
\<close>

theorem SetSwizzleFromSimple_channels:
  "SetSwizzleFromSimple buf =
     ''c = vec4('' @ spec_channel buf 0 @ '', '' @ spec_channel buf 1 @ '', ''
       @ spec_channel buf 2 @ '', '' @ spec_channel buf 3 @ '');'' @ [newline]"
  by (simp add: SetSwizzleFromSimple_def format_swizzle_def swizzle_loop_spec)

text \<open>The two-character input \<open>rg\<close> of the specification's example.\<close>

theorem SetSwizzleFromSimple_rg:
  "SetSwizzleFromSimple ''rg'' = ''c = vec4(c.r, c.g, 0.0, 1.0);'' @ [newline]"
  using SetSwizzleFromSimple_channels[of "''rg''"]
  by (simp add: spec_channel_def terminated_by_def simpleSwizzle_at_def spec_selector_def
        NUL_def spec_default_def upt_conv_Cons)

section \<open>Zoom controller: proofs\<close>

subsection \<open>How far the snap moves a value\<close>








subsection \<open>The C library's \<open>round\<close> on an integer\<close>

lemma c_round_of_int: "c_round (of_int k) = of_int k"
proof -
  have "\<lfloor>real_of_int k + 1 / 2\<rfloor> = k" by linarith
  moreover have "\<lceil>real_of_int k - 1 / 2\<rceil> = k" by linarith
  ultimately show ?thesis by (simp add: c_round_def)
qed

subsection \<open>Claims about the zoom controller\<close>

text \<open>
  Claim C2, as stated, fails: the decrease direction tests \<open>zl <= 2.0\<close>, \<open>zl <= 1.0\<close>
  and \<open>zl <= 0.125\<close>, so at a range boundary it takes the step of the range below. At
  zoom 2.0 a decrease is by 0.25, not by 0.5.
\<close>

theorem zoom_step_boundary_counterexample:
  "zoom_step 2 False = 1.75 \<and> spec_zoom_step 2 False = 1.5"
  by (simp add: zoom_step_def spec_zoom_step_def)

text \<open>
  Claim C2, amended. One step before snapping: when increasing, by +0.5 for zoom \<open>\<ge>\<close> 2,
  by +0.25 for 1 \<open>\<le>\<close> zoom < 2, by +0.125 for 0.125 \<open>\<le>\<close> zoom < 1, and times the square
  root of 2 for zoom < 0.125; when decreasing, by -0.5 for zoom > 2, by -0.25 for
  1 < zoom \<open>\<le>\<close> 2, by -0.125 for 0.125 < zoom \<open>\<le>\<close> 1, and divided by the square root
  of 2 for zoom \<open>\<le>\<close> 0.125. The boundary values 2, 1 and 0.125 belong to the upper range
  when increasing and to the lower range when decreasing.
\<close>

theorem zoom_step_ranges:
  "(2 \<le> zl \<longrightarrow> zoom_step zl True = zl + 0.5) \<and>
   (1 \<le> zl \<and> zl < 2 \<longrightarrow> zoom_step zl True = zl + 0.25) \<and>
   (0.125 \<le> zl \<and> zl < 1 \<longrightarrow> zoom_step zl True = zl + 0.125) \<and>
   (zl < 0.125 \<longrightarrow> zoom_step zl True = zl * sqrt 2) \<and>
   (2 < zl \<longrightarrow> zoom_step zl False = zl - 0.5) \<and>
   (1 < zl \<and> zl \<le> 2 \<longrightarrow> zoom_step zl False = zl - 0.25) \<and>
   (0.125 < zl \<and> zl \<le> 1 \<longrightarrow> zoom_step zl False = zl - 0.125) \<and>
   (zl \<le> 0.125 \<longrightarrow> zoom_step zl False = zl / sqrt 2)"
  by (simp add: zoom_step_def)

theorem zoom_step_ranges_witness:
  "zoom_step 3 True = 3.5 \<and> zoom_step 3 False = 2.5 \<and>
   zoom_step 2 True = 2.5 \<and> zoom_step 2 False = 1.75 \<and>
   zoom_step 1 True = 1.25 \<and> zoom_step 1 False = 0.875 \<and>
   zoom_step 0.125 True = 0.25 \<and> zoom_step 0.125 False = 0.125 / sqrt 2 \<and>
   zoom_step 0.1 True = 0.1 * sqrt 2"
  using zoom_step_ranges[of 3] zoom_step_ranges[of 2] zoom_step_ranges[of 1]
    zoom_step_ranges[of "0.125"] zoom_step_ranges[of "0.1"]
  by simp






section \<open>IEEE 754 arithmetic: proofs\<close>

subsection \<open>Rounding to nearest\<close>

text \<open>
  The rounded value is a number of the format and no number of the format is nearer. So
  rounding is monotone with respect to the numbers of the format, and exact on them.
\<close>

lemma round_half_even_nearest: "\<bar>of_int (round_half_even q) - q\<bar> \<le> \<bar>of_int k - q\<bar>"
proof -
  define f where "f = \<lfloor>q\<rfloor>"
  have fl: "of_int f \<le> q" "q < of_int f + 1" unfolding f_def by linarith+
  consider "k \<le> f" | "f + 1 \<le> k" by linarith
  then show ?thesis
  proof cases
    case 1
    then have "real_of_int k \<le> of_int f" by linarith
    then show ?thesis using fl
      by (auto simp: round_half_even_def Let_def f_def[symmetric])
  next
    case 2
    then have "real_of_int k \<ge> of_int f + 1" by linarith 
    then show ?thesis using fl
      by (auto simp: round_half_even_def Let_def f_def[symmetric])
  qed
qed

lemma round_half_even_of_int [simp]: "round_half_even (of_int k) = k"
  by (simp add: round_half_even_def)

lemma round_half_even_bounds:
  "of_int \<lfloor>q\<rfloor> \<le> real_of_int (round_half_even q)" "real_of_int (round_half_even q) \<le> of_int \<lceil>q\<rceil>"
  unfolding round_half_even_def Let_def by (auto; linarith)+


lemma floor_log2_iff:
  assumes "x \<noteq> 0"
  shows "\<lfloor>log 2 \<bar>x\<bar>\<rfloor> = L \<longleftrightarrow> 2 powi L \<le> \<bar>x\<bar> \<and> \<bar>x\<bar> < 2 powi (L + 1)"
proof -
  have "\<lfloor>log 2 \<bar>x\<bar>\<rfloor> = L \<longleftrightarrow> 2 powr (real_of_int L) \<le> \<bar>x\<bar> \<and> \<bar>x\<bar> < 2 powr (real_of_int (L + 1))"
    using floor_log_eq_powr_iff[of "\<bar>x\<bar>" 2 L] assms by simp
  moreover have "(2::real) powr (real_of_int L) = 2 powi L"
    by (intro powr_real_of_int') simp_all
  moreover have "(2::real) powr (real_of_int (L + 1)) = 2 powi (L + 1)"
    by (intro powr_real_of_int') simp_all
  ultimately show ?thesis by simp
qed

lemma log2_bounds:
  assumes "x \<noteq> 0"
  shows "2 powi \<lfloor>log 2 \<bar>x\<bar>\<rfloor> \<le> \<bar>x\<bar>" "\<bar>x\<bar> < 2 powi (\<lfloor>log 2 \<bar>x\<bar>\<rfloor> + 1)"
  using floor_log2_iff[OF assms, of "\<lfloor>log 2 \<bar>x\<bar>\<rfloor>"] by simp_all

lemma powi_split: "(2::real) powi (a + b) = 2 powi a * 2 powi b"
  by (simp add: power_int_add)

lemma powi_le: "a \<le> b \<Longrightarrow> (2::real) powi a \<le> 2 powi b"
  by (rule power_int_increasing) simp_all

lemma powi_nat: "0 \<le> a \<Longrightarrow> (2::real) powi a = of_int (2 ^ nat a)"
  by (simp add: power_int_nonneg_exp)

text \<open>A multiple of a power of two with a short enough numerator is representable.\<close>

lemma representableI:
  assumes "\<bar>m\<bar> \<le> 2 ^ prec fmt" "emin fmt \<le> e" "0 < prec fmt"
  shows "of_int m * 2 powi e \<in> representable fmt"
proof (cases "\<bar>m\<bar> < 2 ^ prec fmt")
  case True
  then show ?thesis using assms(2) unfolding representable_def by blast
next
  case False
  then have m: "\<bar>m\<bar> = 2 ^ prec fmt" using assms(1) by simp
  obtain p where Suc: "prec fmt = Suc p" using assms(3) by (cases "prec fmt") simp_all
  define m' where "m' = m div 2"
  have ev: "m = 2 * m'"
  proof -
    have "even \<bar>m\<bar>" using m Suc by simp
    then have "even m" by simp
    then show ?thesis by (simp add: m'_def)
  qed
  have "\<bar>m'\<bar> = 2 ^ p" using m Suc ev by (simp add: abs_mult)
  then have lt: "\<bar>m'\<bar> < 2 ^ prec fmt" using Suc by simp
  have "real_of_int m * 2 powi e = of_int m' * 2 powi (e + 1)"
    by (simp add: ev power_int_add)
  moreover have "emin fmt \<le> e + 1" using assms(2) by simp
  ultimately show ?thesis using lt unfolding representable_def by blast
qed


lemma lsb_exp_ge: "emin fmt \<le> lsb_exp fmt x"
  by (simp add: lsb_exp_def)

lemma scaled_lt:
  assumes "x \<noteq> 0"
  shows "\<bar>x / 2 powi lsb_exp fmt x\<bar> < 2 ^ prec fmt"
proof -
  define L where "L = \<lfloor>log 2 \<bar>x\<bar>\<rfloor>"
  define e where "e = lsb_exp fmt x"
  have e: "L - (int (prec fmt) - 1) \<le> e" by (simp add: e_def lsb_exp_def L_def)
  have "\<bar>x\<bar> < 2 powi (L + 1)" using log2_bounds(2)[OF assms] by (simp add: L_def)
  also have "L + 1 \<le> e + int (prec fmt)" using e by simp
  then have "(2::real) powi (L + 1) \<le> 2 powi (e + int (prec fmt))" by (rule powi_le)
  also have "\<dots> = 2 powi e * 2 ^ prec fmt" by (simp add: power_int_add)
  finally have "\<bar>x\<bar> < 2 powi e * 2 ^ prec fmt" .
  then have "\<bar>x\<bar> / 2 powi e < 2 ^ prec fmt"
    by (simp add: field_simps)
  then show ?thesis by (simp add: e_def)
qed

lemma rnd_representable:
  assumes "0 < prec fmt"
  shows "rnd fmt x \<in> representable fmt"
proof (cases "x = 0")
  case True
  have "of_int 0 * 2 powi emin fmt \<in> representable fmt"
    using assms by (intro representableI) simp_all
  then show ?thesis using True by (simp add: rnd_def)
next
  case False
  define q where "q = x / 2 powi lsb_exp fmt x"
  have q: "\<bar>q\<bar> < 2 ^ prec fmt" unfolding q_def using False by (rule scaled_lt)
  have "real_of_int \<lceil>q\<rceil> \<le> 2 ^ prec fmt"
  proof -
    have "q \<le> real_of_int (2 ^ prec fmt)" using q by simp
    then have "\<lceil>q\<rceil> \<le> 2 ^ prec fmt" by (simp only: ceiling_le_iff)
    then show ?thesis by (metis of_int_le_iff of_int_numeral of_int_power)
  qed
  moreover have "- (2 ^ prec fmt) \<le> real_of_int \<lfloor>q\<rfloor>"
  proof -
    have "real_of_int (- (2 ^ prec fmt)) \<le> q" using q by simp
    then have "- (2 ^ prec fmt) \<le> \<lfloor>q\<rfloor>" by (simp only: le_floor_iff)
    then show ?thesis by (metis of_int_le_iff of_int_numeral of_int_power of_int_minus)
  qed
  ultimately have "\<bar>real_of_int (round_half_even q)\<bar> \<le> 2 ^ prec fmt"
    using round_half_even_bounds[of q] by linarith
  then have "\<bar>round_half_even q\<bar> \<le> 2 ^ prec fmt"
    by (metis of_int_abs of_int_le_iff of_int_numeral of_int_power)
  then have "of_int (round_half_even q) * 2 powi lsb_exp fmt x \<in> representable fmt"
    using lsb_exp_ge assms by (intro representableI) simp_all
  then show ?thesis using False by (simp add: rnd_def q_def)
qed


lemma rnd_nearest:
  assumes "0 < prec fmt" "d \<in> representable fmt"
  shows "\<bar>rnd fmt x - x\<bar> \<le> \<bar>d - x\<bar>"
proof (cases "x = 0")
  case True
  then show ?thesis by (simp add: rnd_def)
next
  case False
  obtain m f where d: "d = of_int m * 2 powi f" and m: "\<bar>m\<bar> < 2 ^ prec fmt" and f: "emin fmt \<le> f"
    using assms(2) unfolding representable_def by blast
  define L where "L = \<lfloor>log 2 \<bar>x\<bar>\<rfloor>"
  define e where "e = lsb_exp fmt x"
  define u :: real where "u = 2 powi e"
  define q where "q = x / u"
  define n where "n = round_half_even q"
  have u: "0 < u" by (simp add: u_def)
  have x: "x = q * u" using u by (simp add: q_def)
  have r: "rnd fmt x = of_int n * u" using False by (simp add: rnd_def n_def q_def u_def e_def)
  have scale: "\<bar>of_int k * u - x\<bar> = u * \<bar>of_int k - q\<bar>" for k :: int
  proof -
    have "of_int k * u - x = u * (of_int k - q)" by (simp add: x algebra_simps)
    then show ?thesis using u by (simp add: abs_mult)
  qed
  show ?thesis
  proof (cases "e \<le> f")
    case True
    define k where "k = m * 2 ^ nat (f - e)"
    have "(2::real) powi f = 2 powi (f - e) * 2 powi e" by (simp add: power_int_add[symmetric])
    also have "(2::real) powi (f - e) = 2 ^ nat (f - e)" using True by (simp add: power_int_nonneg_exp)
    finally have "d = of_int k * u" by (simp add: d k_def u_def)
    then have "\<bar>d - x\<bar> = u * \<bar>of_int k - q\<bar>" using scale by simp
    moreover have "\<bar>rnd fmt x - x\<bar> = u * \<bar>of_int n - q\<bar>" using scale r by simp
    moreover have "\<bar>of_int n - q\<bar> \<le> \<bar>of_int k - q\<bar>"
      unfolding n_def by (rule round_half_even_nearest)
    ultimately show ?thesis using u by simp
  next
    case False
    then have fe: "f + 1 \<le> e" by simp
    then have "e \<noteq> emin fmt" using f by simp
    then have e: "e = L - (int (prec fmt) - 1)" by (simp add: e_def lsb_exp_def L_def)
    have xL: "2 powi L \<le> \<bar>x\<bar>" using log2_bounds(1)[OF \<open>x \<noteq> 0\<close>] by (simp add: L_def)
    have Lu: "(2::real) powi L = 2 ^ (prec fmt - 1) * u"
    proof -
      have "L = int (prec fmt - 1) + e" using e assms(1) by simp
      then show ?thesis by (simp add: u_def power_int_add)
    qed
    have dlt: "\<bar>d\<bar> < 2 powi L"
    proof -
      have "\<bar>d\<bar> = \<bar>real_of_int m\<bar> * 2 powi f" by (simp add: d abs_mult)
      also have "\<dots> < 2 ^ prec fmt * 2 powi f"
      proof -
        have "\<bar>real_of_int m\<bar> < 2 ^ prec fmt"
          using m by (metis of_int_abs of_int_less_iff of_int_numeral of_int_power)
        then show ?thesis by simp
      qed
      also have "\<dots> = 2 powi (int (prec fmt) + f)" by (simp add: power_int_add)
      also have "\<dots> \<le> 2 powi L" using fe e by (intro powi_le) simp
      finally show ?thesis .
    qed
    define k0 :: int where "k0 = (if 0 < x then 2 ^ (prec fmt - 1) else - (2 ^ (prec fmt - 1)))"
    have qabs: "\<bar>q\<bar> * u = \<bar>x\<bar>" using u by (simp add: q_def abs_divide)
    have qge: "2 ^ (prec fmt - 1) \<le> \<bar>q\<bar>"
    proof -
      have "2 ^ (prec fmt - 1) * u \<le> \<bar>q\<bar> * u" using xL Lu qabs by simp
      then show ?thesis using u by simp
    qed
    have k0q: "\<bar>of_int k0 - q\<bar> = \<bar>q\<bar> - 2 ^ (prec fmt - 1)"
    proof (cases "0 < x")
      case True
      then have "0 < q" using u by (simp add: q_def)
      then show ?thesis using qge True by (simp add: k0_def)
    next
      case False
      then have "x < 0" using \<open>x \<noteq> 0\<close> by simp
      then have "q < 0" using u by (simp add: q_def field_simps)
      then show ?thesis using qge False by (simp add: k0_def)
    qed
    have "\<bar>rnd fmt x - x\<bar> = u * \<bar>of_int n - q\<bar>" using scale r by simp
    also have "\<dots> \<le> u * \<bar>of_int k0 - q\<bar>"
      using u round_half_even_nearest[of q k0] by (simp add: n_def)
    also have "\<dots> = \<bar>x\<bar> - 2 powi L" using qabs Lu by (simp add: k0q algebra_simps)
    also have "\<dots> < \<bar>x\<bar> - \<bar>d\<bar>" using dlt by simp
    also have "\<dots> \<le> \<bar>d - x\<bar>" by simp
    finally show ?thesis by simp
  qed
qed

lemma rnd_ge:
  assumes "0 < prec fmt" "a \<in> representable fmt" "a \<le> x"
  shows "a \<le> rnd fmt x"
proof (rule ccontr)
  assume "\<not> a \<le> rnd fmt x"
  then have "rnd fmt x < a" by simp
  then have "\<bar>a - x\<bar> < \<bar>rnd fmt x - x\<bar>" using assms(3) by simp
  then show False using rnd_nearest[OF assms(1,2), of x] by simp
qed

lemma rnd_le:
  assumes "0 < prec fmt" "b \<in> representable fmt" "x \<le> b"
  shows "rnd fmt x \<le> b"
proof (rule ccontr)
  assume "\<not> rnd fmt x \<le> b"
  then have "b < rnd fmt x" by simp
  then have "\<bar>b - x\<bar> < \<bar>rnd fmt x - x\<bar>" using assms(3) by simp
  then show False using rnd_nearest[OF assms(1,2), of x] by simp
qed

lemma rnd_id:
  assumes "0 < prec fmt" "x \<in> representable fmt"
  shows "rnd fmt x = x"
  using rnd_ge[OF assms, of x] rnd_le[OF assms, of x] by simp

lemma prec64 [simp]: "prec binary64 = 53" "emin binary64 = - 1074" "etop binary64 = 971"
  by (simp_all add: binary64_def)

lemma dyadic64:
  "\<bar>m\<bar> \<le> 2 ^ 53 \<Longrightarrow> - 1074 \<le> e \<Longrightarrow> of_int m * 2 powi e \<in> D64"
  by (rule representableI) simp_all

lemma largest64: "largest binary64 = (2 ^ 53 - 1) * 2 ^ 971"
  by (simp add: largest_def)

lemma consts64:
  "(0::real) \<in> D64" "(1::real) \<in> D64" "(2::real) \<in> D64" "(8::real) \<in> D64"
  "(1/2::real) \<in> D64" "(1/4::real) \<in> D64" "(1/8::real) \<in> D64"
  using dyadic64[of 0 0] dyadic64[of 1 0] dyadic64[of 2 0] dyadic64[of 8 0]
    dyadic64[of 1 "-1"] dyadic64[of 1 "-2"] dyadic64[of 1 "-3"]
  by (simp_all add: power_int_minus)

lemma prec32 [simp]: "prec binary32 = 24" "emin binary32 = - 149" "etop binary32 = 104"
  by (simp_all add: binary32_def)

lemma dyadic32:
  "\<bar>m\<bar> \<le> 2 ^ 24 \<Longrightarrow> - 149 \<le> e \<Longrightarrow> of_int m * 2 powi e \<in> D32"
  by (rule representableI) simp_all

lemma largest32: "largest binary32 = (2 ^ 24 - 1) * 2 ^ 104"
  by (simp add: largest_def)

lemma small_le_MAX32: "x \<le> 2 ^ 60 \<Longrightarrow> x \<le> MAX32"
proof -
  assume "x \<le> 2 ^ 60"
  moreover have "(2::real) ^ 60 \<le> (2 ^ 24 - 1) * 2 ^ 104" by simp
  ultimately show ?thesis unfolding largest32 by linarith
qed

lemma fp_round_sandwich:
  assumes "0 < prec fmt" "a \<in> representable fmt" "0 < a" "a \<le> v"
    "b \<in> representable fmt" "v \<le> b" "b \<le> largest fmt"
  shows "fp_round fmt s v = Fin (rnd fmt v) \<and> a \<le> rnd fmt v \<and> rnd fmt v \<le> b"
proof -
  have lo: "a \<le> rnd fmt v" using assms(1,2,4) by (intro rnd_ge)
  have hi: "rnd fmt v \<le> b" using assms(1,5,6) by (intro rnd_le)
  have "fp_round fmt s v = Fin (rnd fmt v)"
    using lo hi assms(3,7) by (simp add: fp_round_def Let_def)
  then show ?thesis using lo hi by simp
qed

lemma fp_round_id:
  assumes "0 < prec fmt" "v \<in> representable fmt" "0 < v" "v \<le> largest fmt"
  shows "fp_round fmt s v = Fin v"
  using fp_round_sandwich[OF assms(1,2,3) order_refl assms(2) order_refl assms(4), of s]
    rnd_id[OF assms(1,2)]
  by simp



subsection \<open>Doubles, and the C library's \<open>round\<close> on them\<close>

lemma representable_scale:
  assumes "d \<in> representable fmt" "0 \<le> k"
  shows "d * 2 powi k \<in> representable fmt"
proof -
  obtain m e where d: "d = of_int m * 2 powi e" and m: "\<bar>m\<bar> < 2 ^ prec fmt" and e: "emin fmt \<le> e"
    using assms(1) unfolding representable_def by blast
  have "d * 2 powi k = of_int m * 2 powi (e + k)" by (simp add: d power_int_add)
  moreover have "emin fmt \<le> e + k" using e assms(2) by simp
  ultimately show ?thesis using m unfolding representable_def by blast
qed

lemma representable_neg:
  assumes "d \<in> representable fmt"
  shows "- d \<in> representable fmt"
proof -
  obtain m e where d: "d = of_int m * 2 powi e" and m: "\<bar>m\<bar> < 2 ^ prec fmt" and e: "emin fmt \<le> e"
    using assms(1) unfolding representable_def by blast
  have "- d = of_int (- m) * 2 powi e" by (simp add: d)
  moreover have "\<bar>- m\<bar> < 2 ^ prec fmt" using m by simp
  ultimately show ?thesis using e unfolding representable_def by blast
qed

lemma c_round_int: "\<exists>k. c_round y = of_int k \<and> of_int k \<le> y + 1 / 2 \<and> y - 1 / 2 \<le> of_int k"
proof (cases "0 \<le> y")
  case True
  have "real_of_int \<lfloor>y + 1 / 2\<rfloor> \<le> y + 1 / 2" "y - 1 / 2 \<le> real_of_int \<lfloor>y + 1 / 2\<rfloor>" by linarith+
  then show ?thesis using True unfolding c_round_def by auto
next
  case False
  have "real_of_int \<lceil>y - 1 / 2\<rceil> \<le> y + 1 / 2" "y - 1 / 2 \<le> real_of_int \<lceil>y - 1 / 2\<rceil>" by linarith+
  then show ?thesis using False unfolding c_round_def by auto
qed

lemma c_round_mono: "x \<le> y \<Longrightarrow> c_round x \<le> c_round y"
proof -
  assume le: "x \<le> y"
  have a: "\<lfloor>x + 1 / 2\<rfloor> \<le> \<lfloor>y + 1 / 2\<rfloor>" using le by (intro floor_mono) simp
  have b: "\<lceil>x - 1 / 2\<rceil> \<le> \<lceil>y - 1 / 2\<rceil>" using le by (intro ceiling_mono) simp
  have c: "\<lceil>x - 1 / 2\<rceil> \<le> \<lfloor>x + 1 / 2\<rfloor>" by linarith
  show ?thesis
    unfolding c_round_def using a b c le
    by (auto; linarith)
qed

text \<open>Half of the rounding of a double to an integer is a double.\<close>

lemma c_round_half_D64:
  assumes "y \<in> D64"
  shows "c_round y / 2 \<in> D64" and "c_round y \<in> D64"
proof -
  obtain m e where y: "y = of_int m * 2 powi e" and m: "\<bar>m\<bar> < 2 ^ 53" and e: "- 1074 \<le> e"
    using assms unfolding representable_def by auto
  have "c_round y / 2 \<in> D64 \<and> c_round y \<in> D64"
  proof (cases "1 \<le> e")
    case True
    have "(2::real) powi e = 2 ^ nat e" using True by (simp add: power_int_nonneg_exp)
    then have "y = of_int (m * 2 ^ nat e)" using y by simp
    then have cr: "c_round y = y" using c_round_of_int by metis
    have "y / 2 = of_int m * 2 powi (e - 1)" using y by (simp add: power_int_diff)
    moreover have "of_int m * 2 powi (e - 1) \<in> D64" using m e True by (intro dyadic64) simp_all
    ultimately show ?thesis using cr assms by simp
  next
    case False
    then have "e \<le> 0" by simp
    then have "(2::real) powi e \<le> 2 powi 0" by (rule powi_le)
    then have p1: "(2::real) powi e \<le> 1" by simp
    have "\<bar>y\<bar> = \<bar>real_of_int m\<bar> * 2 powi e" by (simp add: y abs_mult)
    also have "\<dots> \<le> \<bar>real_of_int m\<bar> * 1" using p1 by (intro mult_left_mono) simp_all
    finally have ym: "\<bar>y\<bar> \<le> \<bar>real_of_int m\<bar>" by simp
    have "\<bar>real_of_int m\<bar> \<le> 2 ^ 53 - 1"
    proof -
      have "\<bar>m\<bar> \<le> 2 ^ 53 - 1" using m by simp
      then have "real_of_int \<bar>m\<bar> \<le> real_of_int (2 ^ 53 - 1)" by (simp only: of_int_le_iff)
      then show ?thesis by simp
    qed
    then have yb: "\<bar>y\<bar> \<le> 2 ^ 53 - 1" using ym by linarith
    obtain k where k: "c_round y = of_int k" "of_int k \<le> y + 1 / 2" "y - 1 / 2 \<le> of_int k"
      using c_round_int by blast
    have "\<bar>real_of_int k\<bar> \<le> 2 ^ 53" using k(2,3) yb by linarith
    then have "real_of_int \<bar>k\<bar> \<le> real_of_int (2 ^ 53)" by simp
    then have kb: "\<bar>k\<bar> \<le> 2 ^ 53" by (simp only: of_int_le_iff)
    have "of_int k * 2 powi (- 1) \<in> D64" using kb by (intro dyadic64) simp_all
    moreover have "of_int k * 2 powi 0 \<in> D64" using kb by (intro dyadic64) simp_all
    ultimately show ?thesis using k(1) by (simp add: power_int_minus field_simps)
  qed
  then show "c_round y / 2 \<in> D64" and "c_round y \<in> D64" by simp_all
qed

subsection \<open>Operations on finite values\<close>

lemma fp_round_between:
  assumes "a \<in> D64" "0 < a" "a \<le> v" "b \<in> D64" "v \<le> b" "b \<le> MAX64"
  shows "fp_round binary64 s v = Fin (rnd64 v) \<and> a \<le> rnd64 v \<and> rnd64 v \<le> b"
proof -
  have lo: "a \<le> rnd64 v" using assms(1,3) by (intro rnd_ge) simp_all
  have hi: "rnd64 v \<le> b" using assms(4,5) by (intro rnd_le) simp_all
  have "fp_round binary64 s v = Fin (rnd64 v)"
    using lo hi assms(2,6) by (simp add: fp_round_def Let_def)
  then show ?thesis using lo hi by simp
qed

lemma fp_round_exact:
  assumes "v \<in> D64" "0 < v" "v \<le> MAX64"
  shows "fp_round binary64 s v = Fin v"
  using fp_round_between[OF assms(1,2) order_refl assms(1) order_refl assms(3), of s]
    rnd_id[OF _ assms(1)]
  by simp

lemma cmp_Fin [simp]:
  "flt (Fin a) (Fin b) \<longleftrightarrow> a < b"
  "fle (Fin a) (Fin b) \<longleftrightarrow> a \<le> b"
  "fgt (Fin a) (Fin b) \<longleftrightarrow> b < a"
  "fge (Fin a) (Fin b) \<longleftrightarrow> b \<le> a"
  by (auto simp: flt_def fle_def fgt_def fge_def feq_def is_inf_def)

lemma fadd_Fin: "a + b \<noteq> 0 \<Longrightarrow> fadd fmt (Fin a) (Fin b) = fp_round fmt (a + b < 0) (a + b)"
  by (simp add: fadd_def is_inf_def Let_def)

lemma fsub_Fin: "a - b \<noteq> 0 \<Longrightarrow> b \<noteq> 0 \<Longrightarrow> fsub fmt (Fin a) (Fin b) = fp_round fmt (a - b < 0) (a - b)"
  by (simp add: fsub_def fadd_def is_inf_def Let_def)


lemma fmul_Fin: "fmul fmt (Fin a) (Fin b) = fp_round fmt ((a < 0) \<noteq> (b < 0)) (a * b)"
  by (simp add: fmul_def is_inf_def)

lemma fdiv_Fin: "b \<noteq> 0 \<Longrightarrow> fdiv fmt (Fin a) (Fin b) = fp_round fmt ((a < 0) \<noteq> (b < 0)) (a / b)"
  by (simp add: fdiv_def is_inf_def)

lemma MAX64_big: "2 ^ 1023 \<le> MAX64"
  by (simp add: largest64)

lemma small_le_MAX64: "x \<le> 2 ^ 60 \<Longrightarrow> x \<le> MAX64"
proof -
  assume "x \<le> 2 ^ 60"
  moreover have "(2::real) ^ 60 \<le> 2 ^ 1023" by (intro power_increasing) simp_all
  ultimately show ?thesis using MAX64_big by linarith
qed

text \<open>The constants.\<close>

lemma sqrt2_double:
  "\<exists>c. fsqrt binary64 (Fin 2.0) = Fin c \<and> 45 / 32 \<le> c \<and> c \<le> 91 / 64"
proof -
  have a: "(45 / 32 :: real) \<in> D64" using dyadic64[of 45 "- 5"] by (simp add: power_int_minus)
  have b: "(91 / 64 :: real) \<in> D64" using dyadic64[of 91 "- 6"] by (simp add: power_int_minus)
  have lo: "45 / 32 \<le> sqrt 2" by (rule real_le_rsqrt) (simp add: power2_eq_square)
  have hi: "sqrt 2 \<le> 91 / 64" by (rule real_le_lsqrt) (simp_all add: power2_eq_square)
  have "(91 / 64 :: real) \<le> MAX64" by (rule small_le_MAX64) simp
  from fp_round_between[OF a _ lo b hi this, of False]
  show ?thesis by simp
qed

lemma inv_sqrt2_double:
  "\<exists>c. fdiv binary64 (Fin 1.0) (fsqrt binary64 (Fin 2.0)) = Fin c \<and> 45 / 64 \<le> c \<and> c \<le> 23 / 32"
proof -
  obtain c where c: "fsqrt binary64 (Fin 2.0) = Fin c" "45 / 32 \<le> c" "c \<le> 91 / 64"
    using sqrt2_double by blast
  have a: "(45 / 64 :: real) \<in> D64" using dyadic64[of 45 "- 6"] by (simp add: power_int_minus)
  have b: "(23 / 32 :: real) \<in> D64" using dyadic64[of 23 "- 5"] by (simp add: power_int_minus)
  have lo: "45 / 64 \<le> 1 / c" using c(2,3) by (simp add: field_simps)
  have hi: "1 / c \<le> 23 / 32" using c(2,3) by (simp add: field_simps)
  have "(23 / 32 :: real) \<le> MAX64" by (rule small_le_MAX64) simp
  from fp_round_between[OF a _ lo b hi this, of False]
  show ?thesis using c by (simp add: fdiv_Fin)
qed

lemma lit_01_double:
  "\<exists>t. fp_literal binary64 0.1 = Fin t \<and> 3 / 32 \<le> t \<and> t \<le> 13 / 128"
proof -
  have a: "(3 / 32 :: real) \<in> D64" using dyadic64[of 3 "- 5"] by (simp add: power_int_minus)
  have b: "(13 / 128 :: real) \<in> D64" using dyadic64[of 13 "- 7"] by (simp add: power_int_minus)
  have "(13 / 128 :: real) \<le> MAX64" by (rule small_le_MAX64) simp
  from fp_round_between[OF a _ _ b _ this, of "0.1" False]
  show ?thesis by (simp add: fp_literal_def)
qed

lemma lit_005_double:
  "\<exists>t. fp_literal binary64 0.05 = Fin t \<and> 1 / 32 \<le> t \<and> t \<le> 1 / 16"
proof -
  have a: "(1 / 32 :: real) \<in> D64" using dyadic64[of 1 "- 5"] by (simp add: power_int_minus)
  have b: "(1 / 16 :: real) \<in> D64" using dyadic64[of 1 "- 4"] by (simp add: power_int_minus)
  have "(1 / 16 :: real) \<le> MAX64" by (rule small_le_MAX64) simp
  from fp_round_between[OF a _ _ b _ this, of "0.05" False]
  show ?thesis by (simp add: fp_literal_def)
qed

lemma fp_round_nonneg:
  assumes "0 \<le> v" "b \<in> D64" "v \<le> b" "b \<le> MAX64"
  shows "fp_round binary64 False v = Fin (rnd64 v) \<and> 0 \<le> rnd64 v \<and> rnd64 v \<le> b"
proof -
  have z: "(0::real) \<in> D64" by (rule consts64)
  have lo: "0 \<le> rnd64 v" using z assms(1) by (intro rnd_ge) simp_all
  have hi: "rnd64 v \<le> b" using assms(2,3) by (intro rnd_le) simp_all
  have "fp_round binary64 False v = Fin (rnd64 v)"
    using lo hi assms(4) by (simp add: fp_round_def Let_def signed_zero_def)
  then show ?thesis using lo hi by simp
qed

lemma fp_round_neg:
  assumes "a \<in> D64" "a \<le> v" "b \<in> D64" "v \<le> b" "b < 0" "- MAX64 \<le> a"
  shows "fp_round binary64 s v = Fin (rnd64 v) \<and> a \<le> rnd64 v \<and> rnd64 v \<le> b"
proof -
  have lo: "a \<le> rnd64 v" using assms(1,2) by (intro rnd_ge) simp_all
  have hi: "rnd64 v \<le> b" using assms(3,4) by (intro rnd_le) simp_all
  have "fp_round binary64 s v = Fin (rnd64 v)"
    using lo hi assms(5,6) by (simp add: fp_round_def Let_def)
  then show ?thesis using lo hi by simp
qed


section \<open>\<open>CalcZoomLevel\<close> in double precision: proofs\<close>

subsection \<open>The snap on a double\<close>

lemma snap_small: "s \<le> 1 / 4 \<Longrightarrow> zoom_snap_double (Fin s) = Fin s"
  by (simp add: zoom_snap_double_def)

lemma c_round_2: "c_round 2 = 2" and c_round_8: "c_round 8 = 8"
  using c_round_of_int[of 2] c_round_of_int[of 8] by simp_all

lemma nearest_half:
  assumes "s \<in> D64" "1 \<le> s" "2 * s \<le> MAX64"
  shows "fmul binary64 (fround (fmul binary64 (Fin s) (Fin 2.0))) (Fin 0.5) = Fin (c_round (2 * s) / 2)"
proof -
  have d2: "s * 2 \<in> D64" using representable_scale[OF assms(1), of 1] by simp
  have m1: "fmul binary64 (Fin s) (Fin 2.0) = Fin (s * 2)"
    using assms fp_round_exact[OF d2, of False] by (simp add: fmul_Fin)
  have ge: "2 \<le> c_round (s * 2)" using c_round_mono[of 2 "s * 2"] assms(2) by (simp add: c_round_2)
  then have r: "fround (Fin (s * 2)) = Fin (c_round (s * 2))" by simp
  have h: "c_round (s * 2) / 2 \<in> D64" using d2 by (rule c_round_half_D64)
  obtain k where k: "c_round (s * 2) = of_int k" "of_int k \<le> s * 2 + 1 / 2"
    using c_round_int by blast
  have "c_round (s * 2) / 2 \<le> MAX64"
  proof -
    have "c_round (s * 2) / 2 \<le> s + 1 / 4" using k by simp
    also have "\<dots> \<le> 2 * s" using assms(2) by simp
    finally show ?thesis using assms(3) by simp
  qed
  then have "fp_round binary64 False (c_round (s * 2) / 2) = Fin (c_round (s * 2) / 2)"
    using h ge by (intro fp_round_exact) simp_all
  then show ?thesis using m1 r ge by (simp add: fmul_Fin mult.commute)
qed

lemma nearest_eighth:
  assumes "s \<in> D64" "1 / 4 < s" "s < 1"
  shows "fmul binary64 (fround (fmul binary64 (Fin s) (Fin 8.0))) (Fin 0.125) = Fin (c_round (8 * s) / 8)"
proof -
  have d8: "s * 8 \<in> D64" using representable_scale[OF assms(1), of 3] by simp
  have "s * 8 \<le> MAX64" using assms(3) by (intro small_le_MAX64) simp
  then have m1: "fmul binary64 (Fin s) (Fin 8.0) = Fin (s * 8)"
    using assms fp_round_exact[OF d8, of False] by (simp add: fmul_Fin)
  have ge: "2 \<le> c_round (s * 8)" using c_round_mono[of 2 "s * 8"] assms(2) by (simp add: c_round_2)
  have le: "c_round (s * 8) \<le> 8" using c_round_mono[of "s * 8" 8] assms(3) by (simp add: c_round_8)
  have r: "fround (Fin (s * 8)) = Fin (c_round (s * 8))" using ge by simp
  obtain k where k: "c_round (s * 8) = of_int k" using c_round_int by blast
  have "\<bar>k\<bar> \<le> 2 ^ 53"
  proof -
    have "real_of_int k \<le> 8" "2 \<le> real_of_int k" using ge le k by simp_all
    then have "k \<le> 8" "2 \<le> k" by linarith+
    then show ?thesis by simp
  qed
  then have "of_int k * 2 powi (- 3) \<in> D64" by (intro dyadic64) simp_all
  then have h: "c_round (s * 8) / 8 \<in> D64" using k by (simp add: power_int_minus field_simps)
  have "c_round (s * 8) / 8 \<le> MAX64" using le by (intro small_le_MAX64) simp
  then have "fp_round binary64 False (c_round (s * 8) / 8) = Fin (c_round (s * 8) / 8)"
    using h ge by (intro fp_round_exact) simp_all
  then show ?thesis using m1 r ge by (simp add: fmul_Fin mult.commute)
qed

lemma snap_mid_cases:
  assumes "s \<in> D64" "1 / 4 < s" "s < 1"
  shows "zoom_snap_double (Fin s) = Fin s \<or> zoom_snap_double (Fin s) = Fin (c_round (8 * s) / 8)"
  using assms nearest_eighth[OF assms]
  by (simp add: zoom_snap_double_def Let_def)

lemma snap_big_cases:
  assumes "s \<in> D64" "1 \<le> s" "2 * s \<le> MAX64"
  shows "zoom_snap_double (Fin s) = Fin s \<or>
         (zoom_snap_double (Fin s) = Fin (c_round (2 * s) / 2) \<and>
          fle (ffabs (fsub binary64 (Fin (c_round (2 * s) / 2)) (Fin s)))
              (std_min (Fin 0.25) (fmul binary64 (fp_literal binary64 0.1) (Fin s))))"
  using assms nearest_half[OF assms]
  by (simp add: zoom_snap_double_def Let_def)

lemma gap_D64: "(1 / 4 - 1 / 2 ^ 51 :: real) \<in> D64"
proof -
  have "of_int (2 ^ 49 - 1) * 2 powi (- 51) \<in> D64" by (intro dyadic64) simp_all
  moreover have "real_of_int (2 ^ 49 - 1) * 2 powi (- 51) = 1 / 4 - 1 / 2 ^ 51"
    by (simp add: power_int_minus field_simps)
  ultimately show ?thesis by simp
qed

lemma c_round_half_near: "\<bar>c_round (2 * s) / 2 - s\<bar> \<le> 1 / 4"
proof -
  obtain k where "c_round (2 * s) = of_int k" "of_int k \<le> 2 * s + 1 / 2" "2 * s - 1 / 2 \<le> of_int k"
    using c_round_int by blast
  then have "c_round (2 * s) / 2 - s \<le> 1 / 4" "- (1 / 4) \<le> c_round (2 * s) / 2 - s"
    by linarith+
  then show ?thesis by linarith
qed

lemma snap_big_close:
  assumes "s \<in> D64" "1 \<le> s" "s \<le> 9 / 4"
  shows "\<exists>r. zoom_snap_double (Fin s) = Fin r \<and> \<bar>r - s\<bar> < 1 / 4 - 1 / 2 ^ 51"
proof -
  define g :: real where "g = 1 / 4 - 1 / 2 ^ 51"
  define h where "h = c_round (2 * s) / 2"
  have g1: "g \<in> D64" unfolding g_def by (rule gap_D64)
  have g2: "0 < g" "15 / 64 < g" "g \<le> 1 / 4" by (simp_all add: g_def)
  note g = g1 g2
  have "2 * s \<le> MAX64" using assms(3) by (intro small_le_MAX64) simp
  from snap_big_cases[OF assms(1,2) this]
  consider "zoom_snap_double (Fin s) = Fin s"
    | "zoom_snap_double (Fin s) = Fin h"
      "fle (ffabs (fsub binary64 (Fin h) (Fin s)))
           (std_min (Fin 0.25) (fmul binary64 (fp_literal binary64 0.1) (Fin s)))"
    by (auto simp: h_def)
  then show ?thesis
  proof cases
    case 1
    then show ?thesis using g(2) by (simp add: g_def)
  next
    case 2
    obtain t where t: "fp_literal binary64 0.1 = Fin t" "3 / 32 \<le> t" "t \<le> 13 / 128"
      using lit_01_double by blast
    have b: "(15 / 64 :: real) \<in> D64" using dyadic64[of 15 "- 6"] by (simp add: power_int_minus)
    have ts: "0 \<le> t * s" "t * s \<le> 15 / 64"
    proof -
      show "0 \<le> t * s" using t(2) assms(2) by simp
      have "t * s \<le> 13 / 128 * (9 / 4)" using t(2,3) assms(2,3) by (intro mult_mono) simp_all
      then show "t * s \<le> 15 / 64" by simp
    qed
    have "(15 / 64 :: real) \<le> MAX64" by (intro small_le_MAX64) simp
    from fp_round_nonneg[OF ts(1) b ts(2) this]
    obtain w where w: "fmul binary64 (Fin t) (Fin s) = Fin w" "0 \<le> w" "w \<le> 15 / 64"
      using t(2) assms(2) by (simp add: fmul_Fin)
    have rhs: "std_min (Fin 0.25) (fmul binary64 (fp_literal binary64 0.1) (Fin s)) = Fin w"
      using w by (simp add: t(1) std_min_def)
    have near: "\<bar>h - s\<bar> \<le> 1 / 4" unfolding h_def by (rule c_round_half_near)
    have "\<bar>h - s\<bar> < g"
    proof (rule ccontr)
      assume "\<not> \<bar>h - s\<bar> < g"
      then consider "g \<le> h - s" | "h - s \<le> - g" by linarith
      then show False
      proof cases
        case above: 1
        have q: "(1 / 4 :: real) \<in> D64" by (rule consts64)
        have mx: "(1 / 4 :: real) \<le> MAX64" by (intro small_le_MAX64) simp
        have hs: "h - s \<le> 1 / 4" using near by linarith
        from fp_round_between[OF g(1,2) above q hs mx, of False]
        have "fp_round binary64 False (h - s) = Fin (rnd64 (h - s))" "g \<le> rnd64 (h - s)"
          by simp_all
        moreover have "fsub binary64 (Fin h) (Fin s) = fp_round binary64 False (h - s)"
          using above g(2) assms(2) by (simp add: fsub_Fin)
        ultimately show False using 2(2) rhs w(3) g(3) by simp
      next
        case below: 2
        have q: "(- (1 / 4) :: real) \<in> D64" using representable_neg[OF consts64(6)] by simp
        have ng: "- g \<in> D64" using g(1) by (rule representable_neg)
        have mx: "- MAX64 \<le> - (1 / 4)" using small_le_MAX64[of "1 / 4"] by simp
        have hs: "- (1 / 4) \<le> h - s" using near by linarith
        have gn: "- g < 0" using g(2) by simp
        from fp_round_neg[OF q hs ng below gn mx, of True]
        have "fp_round binary64 True (h - s) = Fin (rnd64 (h - s))" "rnd64 (h - s) \<le> - g"
          by simp_all
        moreover have "fsub binary64 (Fin h) (Fin s) = fp_round binary64 True (h - s)"
          using below g(2) assms(2) by (simp add: fsub_Fin)
        ultimately show False using 2(2) rhs w(3) g(3) by simp
      qed
    qed
    then show ?thesis using 2(1) by (simp add: g_def)
  qed
qed

subsection \<open>The doubles next to a number\<close>

lemma grid_above:
  fixes z :: real
  assumes "0 \<le> z" "z < 2 ^ 53 * 2 powi j" "- 1074 \<le> j"
  obtains k where "of_int k * 2 powi j \<in> D64" "z < of_int k * 2 powi j"
    "of_int k * 2 powi j \<le> z + 2 powi j"
proof -
  define v :: real where "v = 2 powi j"
  define k where "k = \<lfloor>z / v\<rfloor> + 1"
  have v: "0 < v" by (simp add: v_def)
  have q: "0 \<le> z / v" "z / v < 2 ^ 53" using assms(1,2) v by (simp_all add: v_def field_simps)
  have fl: "of_int \<lfloor>z / v\<rfloor> \<le> z / v" "z / v < of_int \<lfloor>z / v\<rfloor> + 1" by linarith+
  have "0 \<le> \<lfloor>z / v\<rfloor>" using q(1) by simp
  moreover have "\<lfloor>z / v\<rfloor> < 2 ^ 53"
  proof -
    have "z / v < real_of_int (2 ^ 53)" using q(2) by simp
    then show ?thesis by (simp only: floor_less_iff)
  qed
  ultimately have "\<bar>k\<bar> \<le> 2 ^ 53" by (simp add: k_def)
  then have 1: "of_int k * 2 powi j \<in> D64" using assms(3) by (intro dyadic64)
  have "z / v < of_int k" using fl(2) by (simp add: k_def)
  then have 2: "z < of_int k * v" using v by (simp add: field_simps)
  have "of_int k \<le> z / v + 1" using fl(1) by (simp add: k_def)
  then have "of_int k * v \<le> (z / v + 1) * v" using v by (intro mult_right_mono) simp_all
  moreover have "(z / v + 1) * v = z + v" using v by (simp add: distrib_right)
  ultimately have 3: "of_int k * v \<le> z + v" by simp
  show thesis using that[of k] 1 2 3 by (simp add: v_def)
qed

lemma grid_below:
  fixes z :: real
  assumes "0 < z" "z \<le> 2 ^ 53 * 2 powi j" "- 1074 \<le> j"
  obtains k where "of_int k * 2 powi j \<in> D64" "of_int k * 2 powi j < z"
    "z - 2 powi j \<le> of_int k * 2 powi j" "0 \<le> k"
proof -
  define v :: real where "v = 2 powi j"
  define k where "k = \<lceil>z / v\<rceil> - 1"
  have v: "0 < v" by (simp add: v_def)
  have q: "0 < z / v" "z / v \<le> 2 ^ 53" using assms(1,2) v by (simp_all add: v_def field_simps)
  have cl: "z / v \<le> of_int \<lceil>z / v\<rceil>" "of_int \<lceil>z / v\<rceil> < z / v + 1" by linarith+
  have k0: "0 \<le> k" using q(1) by (simp add: k_def)
  moreover have "\<lceil>z / v\<rceil> \<le> 2 ^ 53"
  proof -
    have "z / v \<le> real_of_int (2 ^ 53)" using q(2) by simp
    then show ?thesis by (simp only: ceiling_le_iff)
  qed
  ultimately have "\<bar>k\<bar> \<le> 2 ^ 53" by (simp add: k_def)
  then have 1: "of_int k * 2 powi j \<in> D64" using assms(3) by (intro dyadic64)
  have "of_int k < z / v" using cl(2) by (simp add: k_def)
  then have 2: "of_int k * v < z" using v by (simp add: field_simps)
  have "z / v - 1 \<le> of_int k" using cl(1) by (simp add: k_def)
  then have "(z / v - 1) * v \<le> of_int k * v" using v by (intro mult_right_mono) simp_all
  moreover have "(z / v - 1) * v = z - v" using v by (simp add: left_diff_distrib)
  ultimately have 3: "z - v \<le> of_int k * v" by simp
  show thesis using that[of k] 1 2 3 k0 by (simp add: v_def)
qed

lemma rnd64_D64: "rnd64 x \<in> D64"
  by (rule rnd_representable) simp

lemma D64_2p53: "(2 ^ 53 :: real) \<in> D64"
  using dyadic64[of "2 ^ 53" 0] by simp


subsection \<open>One step and the snap, range by range\<close>

text \<open>Increase, zoom at least 2.\<close>

lemma inc_ge2:
  assumes "z \<in> D64" "2 \<le> z" "z < 2 ^ 52"
  shows "\<exists>r. CalcZoomLevel_double (Fin z) True = Fin r \<and> z < r"
proof -
  have "z < 2 ^ 53 * 2 powi (- 1)" using assms(3) by (simp add: power_int_minus)
  from grid_above[OF _ this, simplified]
  obtain k where k: "real_of_int k / 2 \<in> D64" "z < real_of_int k / 2" "real_of_int k / 2 \<le> z + 1 / 2"
    using assms(2) by (auto simp: power_int_minus field_simps)
  define d where "d = real_of_int k / 2"
  define s where "s = rnd64 (z + 1 / 2)"
  have mx: "(2 ^ 53 :: real) \<le> MAX64" by (intro small_le_MAX64) simp
  have "fp_round binary64 False (z + 1 / 2) = Fin s \<and> d \<le> s \<and> s \<le> 2 ^ 53"
    unfolding s_def d_def
    using k assms(2,3) by (intro fp_round_between[OF _ _ _ D64_2p53 _ mx]) simp_all
  then have step: "zoom_step_double (Fin z) True = Fin s" and s: "d \<le> s" "s \<le> 2 ^ 53"
    using assms(2) by (simp_all add: zoom_step_double_def fadd_Fin)
  have sD: "s \<in> D64" unfolding s_def by (rule rnd64_D64)
  have s1: "1 \<le> s" using s(1) k(2) assms(2) by (simp add: d_def)
  have "2 * s \<le> MAX64" using s(2) by (intro small_le_MAX64) simp
  from snap_big_cases[OF sD s1 this]
  have "zoom_snap_double (Fin s) = Fin s \<or> zoom_snap_double (Fin s) = Fin (c_round (2 * s) / 2)"
    by blast
  moreover have "d \<le> c_round (2 * s) / 2"
  proof -
    have "c_round (2 * d) \<le> c_round (2 * s)" using s(1) by (intro c_round_mono) simp
    moreover have "c_round (2 * d) = 2 * d" using c_round_of_int[of k] by (simp add: d_def)
    ultimately show ?thesis by simp
  qed
  ultimately show ?thesis
    using step s(1) k(2) by (auto simp: CalcZoomLevel_double_def d_def)
qed

lemma D64_consts2:
  "(9 / 4 :: real) \<in> D64" "(9 / 8 :: real) \<in> D64" "(3 / 2 :: real) \<in> D64" "(3 / 4 :: real) \<in> D64"
  using dyadic64[of 9 "- 2"] dyadic64[of 9 "- 3"] dyadic64[of 3 "- 1"] dyadic64[of 3 "- 2"]
  by (simp_all add: power_int_minus)

text \<open>Increase, zoom in [1, 2).\<close>

lemma inc_1_2:
  assumes "z \<in> D64" "1 \<le> z" "z < 2"
  shows "\<exists>r. CalcZoomLevel_double (Fin z) True = Fin r \<and> z < r"
proof -
  have "z + 1 / 4 \<le> 2 ^ 53 * 2 powi (- 51)" using assms(3) by (simp add: power_int_minus)
  from grid_below[OF _ this]
  obtain k where k: "real_of_int k * 2 powi (- 51) \<in> D64" "real_of_int k * 2 powi (- 51) < z + 1 / 4"
    "z + 1 / 4 - 2 powi (- 51) \<le> real_of_int k * 2 powi (- 51)"
    using assms(2) by auto
  define a where "a = real_of_int k * 2 powi (- 51)"
  have a: "a \<in> D64" "a \<le> z + 1 / 4" "z + 1 / 4 - 1 / 2 ^ 51 \<le> a"
    using k by (simp_all add: a_def power_int_minus field_simps)
  have a0: "0 < a"
  proof -
    have "(1 / 2 ^ 51 :: real) \<le> 1" by simp
    then show ?thesis using a(3) assms(2) by linarith
  qed
  define s where "s = rnd64 (z + 1 / 4)"
  have mx: "(9 / 4 :: real) \<le> MAX64" by (intro small_le_MAX64) simp
  have "fp_round binary64 False (z + 1 / 4) = Fin s \<and> a \<le> s \<and> s \<le> 9 / 4"
    unfolding s_def
    using a a0 assms(3) by (intro fp_round_between[OF _ _ _ D64_consts2(1) _ mx]) simp_all
  then have step: "zoom_step_double (Fin z) True = Fin s" and s: "a \<le> s" "s \<le> 9 / 4"
    using assms(2,3) by (simp_all add: zoom_step_double_def fadd_Fin)
  have sD: "s \<in> D64" unfolding s_def by (rule rnd64_D64)
  have s1: "1 \<le> s"
  proof -
    have "(1 / 2 ^ 51 :: real) \<le> 1 / 4" by simp
    then show ?thesis using a(3) s(1) assms(2) by linarith
  qed
  from snap_big_close[OF sD s1 s(2)]
  obtain r where r: "zoom_snap_double (Fin s) = Fin r" "\<bar>r - s\<bar> < 1 / 4 - 1 / 2 ^ 51" by blast
  have "z < r" using r(2) s(1) a(3) by linarith
  then show ?thesis using step r(1) by (simp add: CalcZoomLevel_double_def)
qed

text \<open>Increase, zoom in [0.125, 1).\<close>

lemma inc_18_1:
  assumes "z \<in> D64" "1 / 8 \<le> z" "z < 1"
  shows "\<exists>r. CalcZoomLevel_double (Fin z) True = Fin r \<and> z < r"
proof -
  have "z < 2 ^ 53 * 2 powi (- 3)" using assms(3) by (simp add: power_int_minus)
  from grid_above[OF _ this]
  obtain k where k: "real_of_int k * 2 powi (- 3) \<in> D64" "z < real_of_int k * 2 powi (- 3)"
    "real_of_int k * 2 powi (- 3) \<le> z + 2 powi (- 3)"
    using assms(2) by auto
  define d where "d = real_of_int k / 8"
  have d: "d \<in> D64" "z < d" "d \<le> z + 1 / 8"
    using k by (simp_all add: d_def power_int_minus field_simps)
  define s where "s = rnd64 (z + 1 / 8)"
  have mx: "(9 / 8 :: real) \<le> MAX64" by (intro small_le_MAX64) simp
  have "fp_round binary64 False (z + 1 / 8) = Fin s \<and> d \<le> s \<and> s \<le> 9 / 8"
    unfolding s_def
    using d assms(2,3) by (intro fp_round_between[OF _ _ _ D64_consts2(2) _ mx]) simp_all
  then have step: "zoom_step_double (Fin z) True = Fin s" and s: "d \<le> s" "s \<le> 9 / 8"
    using assms(2,3) by (simp_all add: zoom_step_double_def fadd_Fin)
  have sD: "s \<in> D64" unfolding s_def by (rule rnd64_D64)
  have zs: "z < s" using d(2) s(1) by simp
  consider "1 \<le> s" | "1 / 4 < s" "s < 1" | "s \<le> 1 / 4" by linarith
  then have "\<exists>r. zoom_snap_double (Fin s) = Fin r \<and> z < r"
  proof cases
    case 1
    have "2 * s \<le> MAX64" using s(2) by (intro small_le_MAX64) simp
    from snap_big_cases[OF sD 1 this]
    have "zoom_snap_double (Fin s) = Fin s \<or> zoom_snap_double (Fin s) = Fin (c_round (2 * s) / 2)"
      by blast
    moreover have "2 \<le> c_round (2 * s)" using c_round_mono[of 2 "2 * s"] 1 by (simp add: c_round_2)
    ultimately show ?thesis using zs assms(3) by auto
  next
    case 2
    from snap_mid_cases[OF sD 2]
    have "zoom_snap_double (Fin s) = Fin s \<or> zoom_snap_double (Fin s) = Fin (c_round (8 * s) / 8)" .
    moreover have "d \<le> c_round (8 * s) / 8"
    proof -
      have "c_round (8 * d) \<le> c_round (8 * s)" using s(1) by (intro c_round_mono) simp
      moreover have "c_round (8 * d) = 8 * d" using c_round_of_int[of k] by (simp add: d_def)
      ultimately show ?thesis by simp
    qed
    ultimately show ?thesis using zs d(2) by auto
  next
    case 3
    then show ?thesis using zs by (simp add: snap_small)
  qed
  then show ?thesis using step by (simp add: CalcZoomLevel_double_def)
qed

text \<open>The binade of a zoom that is at least four times the smallest positive double.\<close>

lemma binade:
  fixes z :: real
  assumes "2 powi (- 1072) \<le> z"
  obtains j where "- 1074 \<le> j" "4 * 2 powi j \<le> z" "z < 8 * 2 powi j"
proof -
  have "(0::real) < 2 powi (- 1072)" by simp
  then have z0: "0 < z" using assms by linarith
  define L where "L = \<lfloor>log 2 \<bar>z\<bar>\<rfloor>"
  have b: "2 powi L \<le> z" "z < 2 powi (L + 1)"
    using log2_bounds[of z] z0 by (simp_all add: L_def)
  have "- 1072 < L + 1"
  proof (rule ccontr)
    assume "\<not> - 1072 < L + 1"
    then have "L + 1 \<le> - 1072" by simp
    then have "(2::real) powi (L + 1) \<le> 2 powi (- 1072)" by (rule powi_le)
    then show False using b(2) assms by linarith
  qed
  then have 1: "- 1074 \<le> L - 2" by simp
  have "(2::real) powi L = 2 powi (L - 2) * 2 powi 2" using powi_split[of "L - 2" 2] by simp
  then have 2: "4 * 2 powi (L - 2) \<le> z" using b(1) by simp
  have "(2::real) powi (L + 1) = 2 powi (L - 2) * 2 powi 3" using powi_split[of "L - 2" 3] by (simp add: add.commute)
  then have 3: "z < 8 * 2 powi (L - 2)" using b(2) by simp
  show thesis using that[OF 1 2 3] .
qed

text \<open>Increase, zoom below 0.125.\<close>

lemma inc_small:
  assumes "z \<in> D64" "2 powi (- 1072) \<le> z" "z < 1 / 8"
  shows "\<exists>r. CalcZoomLevel_double (Fin z) True = Fin r \<and> z < r"
proof -
  obtain j where j: "- 1074 \<le> j" "4 * 2 powi j \<le> z" "z < 8 * 2 powi j"
    using binade[OF assms(2)] by blast
  have "(0::real) < 2 powi j" by simp
  then have z0: "0 < z" using j(2) by linarith
  have "z < 2 ^ 53 * 2 powi j"
  proof -
    have "8 * 2 powi j \<le> 2 ^ 53 * (2::real) powi j" by (intro mult_right_mono) simp_all
    then show ?thesis using j(3) by linarith
  qed
  from grid_above[OF _ this j(1)]
  obtain k where k: "real_of_int k * 2 powi j \<in> D64" "z < real_of_int k * 2 powi j"
    "real_of_int k * 2 powi j \<le> z + 2 powi j"
    using z0 by auto
  define d where "d = real_of_int k * 2 powi j"
  obtain c where c: "fsqrt binary64 (Fin 2.0) = Fin c" "45 / 32 \<le> c" "c \<le> 91 / 64"
    using sqrt2_double by blast
  have lo: "d \<le> z * c"
  proof -
    have "d \<le> z + z / 4" using k(3) j(2) by (simp add: d_def)
    also have "\<dots> \<le> z * (45 / 32)" using z0 by simp
    also have "\<dots> \<le> z * c" using c(2) z0 by (intro mult_left_mono) simp_all
    finally show ?thesis .
  qed
  have hi: "z * c \<le> 1 / 4"
  proof -
    have "z * c \<le> 1 / 8 * (91 / 64)" using assms(3) c(2,3) z0 by (intro mult_mono) simp_all
    then show ?thesis by simp
  qed
  define s where "s = rnd64 (z * c)"
  have mx: "(1 / 4 :: real) \<le> MAX64" by (intro small_le_MAX64) simp
  have d0: "0 < d" using k(2) z0 by (simp add: d_def)
  have "fp_round binary64 False (z * c) = Fin s \<and> d \<le> s \<and> s \<le> 1 / 4"
    unfolding s_def using k(1) d0 lo hi
    by (intro fp_round_between[OF _ _ _ consts64(6) _ mx]) (simp_all add: d_def)
  then have step: "zoom_step_double (Fin z) True = Fin s" and s: "d \<le> s" "s \<le> 1 / 4"
    using assms(3) z0 c(1,2) by (simp_all add: zoom_step_double_def fmul_Fin)
  have "z < s" using k(2) s(1) by (simp add: d_def)
  then show ?thesis using step s(2) by (simp add: CalcZoomLevel_double_def snap_small)
qed

text \<open>Decrease, zoom above 2.\<close>

lemma dec_gt2:
  assumes "z \<in> D64" "2 < z" "z \<le> 2 ^ 52"
  shows "\<exists>r. CalcZoomLevel_double (Fin z) False = Fin r \<and> r < z"
proof -
  have "z \<le> 2 ^ 53 * 2 powi (- 1)" using assms(3) by (simp add: power_int_minus)
  from grid_below[OF _ this]
  obtain k where k: "real_of_int k * 2 powi (- 1) \<in> D64" "real_of_int k * 2 powi (- 1) < z"
    "z - 2 powi (- 1) \<le> real_of_int k * 2 powi (- 1)"
    using assms(2) by auto
  define d where "d = real_of_int k / 2"
  have d: "d \<in> D64" "d < z" "z - 1 / 2 \<le> d"
    using k by (simp_all add: d_def power_int_minus field_simps)
  define s where "s = rnd64 (z - 1 / 2)"
  have mx: "d \<le> MAX64" using d(2) assms(3) by (intro small_le_MAX64) simp
  have "fp_round binary64 False (z - 1 / 2) = Fin s \<and> 3 / 2 \<le> s \<and> s \<le> d"
    unfolding s_def
    using d assms(2) by (intro fp_round_between[OF D64_consts2(3) _ _ d(1) _ mx]) simp_all
  then have step: "zoom_step_double (Fin z) False = Fin s" and s: "3 / 2 \<le> s" "s \<le> d"
    using assms(2) by (simp_all add: zoom_step_double_def fsub_Fin)
  have sD: "s \<in> D64" unfolding s_def by (rule rnd64_D64)
  have s1: "1 \<le> s" using s(1) by simp
  have "2 * s \<le> MAX64" using s(2) d(2) assms(3) by (intro small_le_MAX64) simp
  from snap_big_cases[OF sD s1 this]
  have "zoom_snap_double (Fin s) = Fin s \<or> zoom_snap_double (Fin s) = Fin (c_round (2 * s) / 2)"
    by blast
  moreover have "c_round (2 * s) / 2 \<le> d"
  proof -
    have "c_round (2 * s) \<le> c_round (2 * d)" using s(2) by (intro c_round_mono) simp
    moreover have "c_round (2 * d) = 2 * d" using c_round_of_int[of k] by (simp add: d_def)
    ultimately show ?thesis by simp
  qed
  ultimately have "\<exists>r. zoom_snap_double (Fin s) = Fin r \<and> r < z" using s(2) d(2) by auto
  then show ?thesis using step by (simp add: CalcZoomLevel_double_def)
qed

text \<open>Decrease, zoom in (1, 2].\<close>

lemma dec_1_2:
  assumes "z \<in> D64" "1 < z" "z \<le> 2"
  shows "\<exists>r. CalcZoomLevel_double (Fin z) False = Fin r \<and> r < z"
proof -
  have "z - 1 / 4 < 2 ^ 53 * 2 powi (- 51)" using assms(3) by (simp add: power_int_minus)
  from grid_above[OF _ this]
  obtain k where k: "real_of_int k * 2 powi (- 51) \<in> D64" "z - 1 / 4 < real_of_int k * 2 powi (- 51)"
    "real_of_int k * 2 powi (- 51) \<le> z - 1 / 4 + 2 powi (- 51)"
    using assms(2) by auto
  define b where "b = real_of_int k * 2 powi (- 51)"
  have b: "b \<in> D64" "z - 1 / 4 \<le> b" "b \<le> z - 1 / 4 + 1 / 2 ^ 51"
    using k by (simp_all add: b_def power_int_minus field_simps)
  have small: "(1 / 2 ^ 51 :: real) \<le> 1 / 4" by simp
  define s where "s = rnd64 (z - 1 / 4)"
  have mx: "b \<le> MAX64" using b(3) assms(3) small by (intro small_le_MAX64) simp
  have "fp_round binary64 False (z - 1 / 4) = Fin s \<and> 3 / 4 \<le> s \<and> s \<le> b"
    unfolding s_def
    using b assms(2) by (intro fp_round_between[OF D64_consts2(4) _ _ b(1) _ mx]) simp_all
  then have step: "zoom_step_double (Fin z) False = Fin s" and s: "3 / 4 \<le> s" "s \<le> b"
    using assms(2,3) by (simp_all add: zoom_step_double_def fsub_Fin)
  have sD: "s \<in> D64" unfolding s_def by (rule rnd64_D64)
  have "\<exists>r. zoom_snap_double (Fin s) = Fin r \<and> r < z"
  proof (cases "1 \<le> s")
    case True
    have "s \<le> 9 / 4" using s(2) b(3) assms(3) small by linarith
    from snap_big_close[OF sD True this]
    obtain r where r: "zoom_snap_double (Fin s) = Fin r" "\<bar>r - s\<bar> < 1 / 4 - 1 / 2 ^ 51" by blast
    have "r < z" using r(2) s(2) b(3) by linarith
    then show ?thesis using r(1) by blast
  next
    case False
    then have m: "1 / 4 < s" "s < 1" using s(1) by simp_all
    from snap_mid_cases[OF sD m]
    have "zoom_snap_double (Fin s) = Fin s \<or> zoom_snap_double (Fin s) = Fin (c_round (8 * s) / 8)" .
    moreover have "c_round (8 * s) \<le> 8" using c_round_mono[of "8 * s" 8] m(2) by (simp add: c_round_8)
    ultimately show ?thesis using m(2) assms(2) by auto
  qed
  then show ?thesis using step by (simp add: CalcZoomLevel_double_def)
qed

text \<open>Decrease, zoom in (0.125, 1].\<close>

lemma dec_18_1:
  assumes "z \<in> D64" "1 / 8 < z" "z \<le> 1"
  shows "\<exists>r. CalcZoomLevel_double (Fin z) False = Fin r \<and> r < z"
proof -
  have "z \<le> 2 ^ 53 * 2 powi (- 3)" using assms(3) by (simp add: power_int_minus)
  from grid_below[OF _ this]
  obtain k where k: "real_of_int k * 2 powi (- 3) \<in> D64" "real_of_int k * 2 powi (- 3) < z"
    "z - 2 powi (- 3) \<le> real_of_int k * 2 powi (- 3)"
    using assms(2) by auto
  define d where "d = real_of_int k / 8"
  have d: "d \<in> D64" "d < z" "z - 1 / 8 \<le> d"
    using k by (simp_all add: d_def power_int_minus field_simps)
  define s where "s = rnd64 (z - 1 / 8)"
  have mx: "d \<le> MAX64" using d(2) assms(3) by (intro small_le_MAX64) simp
  have "fp_round binary64 False (z - 1 / 8) = Fin s \<and> 0 \<le> s \<and> s \<le> d"
    unfolding s_def
    using d assms(2) by (intro fp_round_nonneg[OF _ d(1) _ mx]) simp_all
  then have step: "zoom_step_double (Fin z) False = Fin s" and s: "0 \<le> s" "s \<le> d"
    using assms(2,3) by (simp_all add: zoom_step_double_def fsub_Fin)
  have sD: "s \<in> D64" unfolding s_def by (rule rnd64_D64)
  have sz: "s < z" using s(2) d(2) by simp
  have "\<exists>r. zoom_snap_double (Fin s) = Fin r \<and> r < z"
  proof (cases "1 / 4 < s")
    case True
    have "s < 1" using sz assms(3) by simp
    from snap_mid_cases[OF sD True this]
    have "zoom_snap_double (Fin s) = Fin s \<or> zoom_snap_double (Fin s) = Fin (c_round (8 * s) / 8)" .
    moreover have "c_round (8 * s) / 8 \<le> d"
    proof -
      have "c_round (8 * s) \<le> c_round (8 * d)" using s(2) by (intro c_round_mono) simp
      moreover have "c_round (8 * d) = 8 * d" using c_round_of_int[of k] by (simp add: d_def)
      ultimately show ?thesis by simp
    qed
    ultimately show ?thesis using sz d(2) by auto
  next
    case False
    then show ?thesis using sz by (simp add: snap_small)
  qed
  then show ?thesis using step by (simp add: CalcZoomLevel_double_def)
qed

text \<open>Decrease, zoom at most 0.125.\<close>

lemma dec_small:
  assumes "z \<in> D64" "2 powi (- 1072) \<le> z" "z \<le> 1 / 8"
  shows "\<exists>r. CalcZoomLevel_double (Fin z) False = Fin r \<and> r < z"
proof -
  obtain j where j: "- 1074 \<le> j" "4 * 2 powi j \<le> z" "z < 8 * 2 powi j"
    using binade[OF assms(2)] by blast
  have "(0::real) < 2 powi j" by simp
  then have z0: "0 < z" using j(2) by linarith
  have "z \<le> 2 ^ 53 * 2 powi j"
  proof -
    have "8 * 2 powi j \<le> 2 ^ 53 * (2::real) powi j" by (intro mult_right_mono) simp_all
    then show ?thesis using j(3) by linarith
  qed
  from grid_below[OF z0 this j(1)]
  obtain k where k: "real_of_int k * 2 powi j \<in> D64" "real_of_int k * 2 powi j < z"
    "z - 2 powi j \<le> real_of_int k * 2 powi j"
    by auto
  define d where "d = real_of_int k * 2 powi j"
  obtain c where c: "fdiv binary64 (Fin 1.0) (fsqrt binary64 (Fin 2.0)) = Fin c" "45 / 64 \<le> c" "c \<le> 23 / 32"
    using inv_sqrt2_double by blast
  have hi: "z * c \<le> d"
  proof -
    have "z * c \<le> z * (23 / 32)" using c(3) z0 by (intro mult_left_mono) simp_all
    also have "\<dots> \<le> z - 2 powi j" using j(2) z0 by simp
    also have "\<dots> \<le> d" using k(3) by (simp add: d_def)
    finally show ?thesis .
  qed
  have lo: "0 \<le> z * c" using z0 c(2) by simp
  define s where "s = rnd64 (z * c)"
  have mx: "d \<le> MAX64" using k(2) assms(3) by (intro small_le_MAX64) (simp add: d_def)
  have "fp_round binary64 False (z * c) = Fin s \<and> 0 \<le> s \<and> s \<le> d"
    unfolding s_def using k(1) lo hi mx
    by (intro fp_round_nonneg) (simp_all add: d_def)
  then have step: "zoom_step_double (Fin z) False = Fin s" and s: "0 \<le> s" "s \<le> d"
    using assms(3) z0 c(1,2) by (simp_all add: zoom_step_double_def fmul_Fin)
  have "s < z" using k(2) s(2) by (simp add: d_def)
  moreover have "s \<le> 1 / 4" using calculation assms(3) by simp
  ultimately show ?thesis using step by (simp add: CalcZoomLevel_double_def snap_small)
qed


subsection \<open>The smallest positive doubles\<close>

text \<open>Every double is a multiple of the smallest positive double.\<close>

lemma D64_grid:
  assumes "z \<in> D64"
  obtains n :: int where "z = of_int n * 2 powi (- 1074)"
proof -
  obtain m e where z: "z = of_int m * 2 powi e" and e: "- 1074 \<le> e"
    using assms unfolding representable_def by auto
  have "(2::real) powi e = 2 powi (e + 1074) * 2 powi (- 1074)"
    using powi_split[of "e + 1074" "- 1074"] by simp
  moreover have "(2::real) powi (e + 1074) = of_int (2 ^ nat (e + 1074))"
    using e by (intro powi_nat) simp
  ultimately have "z = of_int (m * 2 ^ nat (e + 1074)) * 2 powi (- 1074)"
    by (simp add: z)
  then show thesis using that by blast
qed

lemma ulp_small: "(0::real) < 2 powi (- 1074)" "(2::real) powi (- 1074) \<le> 1 / 64"
proof -
  show "(0::real) < 2 powi (- 1074)" by simp
  have "(2::real) powi (- 1074) \<le> 2 powi (- 6)" by (rule powi_le) simp
  then show "(2::real) powi (- 1074) \<le> 1 / 64" by (simp add: power_int_minus)
qed

lemma ulp_multiple: "\<bar>n\<bar> \<le> 2 ^ 53 \<Longrightarrow> of_int n * 2 powi (- 1074) \<in> D64"
  by (rule dyadic64) simp_all

lemma fp_round_near:
  assumes "a \<in> D64" "0 \<le> a" "a \<le> v" "b \<in> D64" "v \<le> b" "b \<le> MAX64" "d \<in> D64"
  shows "\<exists>r. fp_round binary64 False v = Fin r \<and> a \<le> r \<and> r \<le> b \<and> \<bar>r - v\<bar> \<le> \<bar>d - v\<bar> \<and> r \<in> D64"
proof -
  have lo: "a \<le> rnd64 v" using assms(1,3) by (intro rnd_ge) simp_all
  have "0 \<le> v" using assms(2,3) by simp
  from fp_round_nonneg[OF this assms(4,5,6)]
  have "fp_round binary64 False v = Fin (rnd64 v)" "rnd64 v \<le> b" by simp_all
  moreover have "\<bar>rnd64 v - v\<bar> \<le> \<bar>d - v\<bar>" using assms(7) by (intro rnd_nearest) simp_all
  moreover have "rnd64 v \<in> D64" by (rule rnd64_D64)
  ultimately show ?thesis using lo by blast
qed

text \<open>
  The multiplicative step on the three smallest positive doubles: the product is rounded to
  a multiple of the smallest one.
\<close>

lemma step_tiny_inc:
  assumes "z = of_int n * 2 powi (- 1074)" "1 \<le> n" "n \<le> 3"
    "a = of_int lo * 2 powi (- 1074)" "b = of_int hi * 2 powi (- 1074)"
    "d = of_int nr * 2 powi (- 1074)" "0 \<le> lo" "hi \<le> 8" "0 \<le> nr" "nr \<le> 8"
    "of_int lo \<le> of_int n * (45 / 32 :: real)" "of_int n * (91 / 64 :: real) \<le> of_int hi"
  shows "\<exists>r c. zoom_step_double (Fin z) True = Fin r \<and> a \<le> r \<and> r \<le> b \<and> r \<in> D64 \<and>
           \<bar>r - z * c\<bar> \<le> \<bar>d - z * c\<bar> \<and> 45 / 32 \<le> c \<and> c \<le> 91 / 64 \<and>
           zoom_snap_double (Fin r) = Fin r"
proof -
  define u :: real where "u = 2 powi (- 1074)"
  have u: "0 < u" "u \<le> 1 / 64" using ulp_small by (simp_all add: u_def)
  obtain c where c: "fsqrt binary64 (Fin 2.0) = Fin c" "45 / 32 \<le> c" "c \<le> 91 / 64"
    using sqrt2_double by blast
  have z: "z = of_int n * u" using assms(1) by (simp add: u_def)
  have zr: "u \<le> z" "z \<le> 3 * u"
  proof -
    have "1 * u \<le> of_int n * u" using assms(2) u(1) by (intro mult_right_mono) simp_all
    then show "u \<le> z" by (simp add: z)
    have "of_int n * u \<le> 3 * u" using assms(3) u(1) by (intro mult_right_mono) simp_all
    then show "z \<le> 3 * u" by (simp add: z)
  qed
  have lo_le: "0 \<le> lo" "lo \<le> 8"
  proof -
    show "0 \<le> lo" by (rule assms)
    have "real_of_int n \<le> 3" using assms(3) by simp
    then have "real_of_int lo \<le> 3 * (45 / 32)" using assms(11) by linarith
    then show "lo \<le> 8" by linarith
  qed
  have hi_ge: "0 \<le> hi"
  proof -
    have "0 \<le> real_of_int n * (91 / 64)" using assms(2) by simp
    then have "0 \<le> real_of_int hi" using assms(12) by linarith
    then show ?thesis by simp
  qed
  have aD: "a \<in> D64" unfolding assms(4) using lo_le by (intro ulp_multiple) simp
  have bD: "b \<in> D64" unfolding assms(5) using hi_ge assms(8) by (intro ulp_multiple) simp
  have dD: "d \<in> D64" unfolding assms(6) using assms(9,10) by (intro ulp_multiple) simp
  have a0: "0 \<le> a" using assms(7) by (simp add: assms(4))
  have av: "a \<le> z * c"
  proof -
    have "a = of_int lo * u" by (simp add: assms(4) u_def)
    also have "\<dots> \<le> (of_int n * (45 / 32)) * u" using assms(11) u(1) by (intro mult_right_mono) simp_all
    also have "\<dots> = z * (45 / 32)" by (simp add: z)
    also have "\<dots> \<le> z * c" using c(2) zr(1) u(1) by (intro mult_left_mono) simp_all
    finally show ?thesis .
  qed
  have vb: "z * c \<le> b"
  proof -
    have "z * c \<le> z * (91 / 64)" using c(3) zr(1) u(1) by (intro mult_left_mono) simp_all
    also have "\<dots> = (of_int n * (91 / 64)) * u" by (simp add: z)
    also have "\<dots> \<le> of_int hi * u" using assms(12) u(1) by (intro mult_right_mono) simp_all
    finally show ?thesis by (simp add: assms(5) u_def)
  qed
  have b8: "b \<le> 1 / 8"
  proof -
    have "b = of_int hi * u" by (simp add: assms(5) u_def)
    also have "\<dots> \<le> 8 * u" using assms(8) u(1) by (intro mult_right_mono) simp_all
    finally show ?thesis using u(2) by simp
  qed
  have mx: "b \<le> MAX64" using b8 by (intro small_le_MAX64) simp
  from fp_round_near[OF aD a0 av bD vb mx dD]
  obtain r where r: "fp_round binary64 False (z * c) = Fin r" "a \<le> r" "r \<le> b"
    "\<bar>r - z * c\<bar> \<le> \<bar>d - z * c\<bar>" "r \<in> D64" by blast
  have z8: "z < 1 / 8" using zr(2) u by simp
  have z0: "0 < z" using zr(1) u(1) by simp
  have "zoom_step_double (Fin z) True = Fin r"
    using z8 z0 c(1,2) r(1) by (simp add: zoom_step_double_def fmul_Fin)
  moreover have "zoom_snap_double (Fin r) = Fin r" using r(3) b8 by (intro snap_small) simp
  ultimately show ?thesis using r c by blast
qed

lemma step_tiny_dec:
  assumes "z = of_int n * 2 powi (- 1074)" "1 \<le> n" "n \<le> 3"
    "a = of_int lo * 2 powi (- 1074)" "b = of_int hi * 2 powi (- 1074)"
    "d = of_int nr * 2 powi (- 1074)" "0 \<le> lo" "hi \<le> 8" "0 \<le> nr" "nr \<le> 8"
    "of_int lo \<le> of_int n * (45 / 64 :: real)" "of_int n * (23 / 32 :: real) \<le> of_int hi"
  shows "\<exists>r c. zoom_step_double (Fin z) False = Fin r \<and> a \<le> r \<and> r \<le> b \<and> r \<in> D64 \<and>
           \<bar>r - z * c\<bar> \<le> \<bar>d - z * c\<bar> \<and> 45 / 64 \<le> c \<and> c \<le> 23 / 32 \<and>
           zoom_snap_double (Fin r) = Fin r"
proof -
  define u :: real where "u = 2 powi (- 1074)"
  have u: "0 < u" "u \<le> 1 / 64" using ulp_small by (simp_all add: u_def)
  obtain c where c: "fdiv binary64 (Fin 1.0) (fsqrt binary64 (Fin 2.0)) = Fin c"
    "45 / 64 \<le> c" "c \<le> 23 / 32"
    using inv_sqrt2_double by blast
  have z: "z = of_int n * u" using assms(1) by (simp add: u_def)
  have zr: "u \<le> z" "z \<le> 3 * u"
  proof -
    have "1 * u \<le> of_int n * u" using assms(2) u(1) by (intro mult_right_mono) simp_all
    then show "u \<le> z" by (simp add: z)
    have "of_int n * u \<le> 3 * u" using assms(3) u(1) by (intro mult_right_mono) simp_all
    then show "z \<le> 3 * u" by (simp add: z)
  qed
  have lo_le: "0 \<le> lo" "lo \<le> 8"
  proof -
    show "0 \<le> lo" by (rule assms)
    have "real_of_int n \<le> 3" using assms(3) by simp
    then have "real_of_int lo \<le> 3 * (45 / 64)" using assms(11) by linarith
    then show "lo \<le> 8" by linarith
  qed
  have hi_ge: "0 \<le> hi"
  proof -
    have "0 \<le> real_of_int n * (23 / 32)" using assms(2) by simp
    then have "0 \<le> real_of_int hi" using assms(12) by linarith
    then show ?thesis by simp
  qed
  have aD: "a \<in> D64" unfolding assms(4) using lo_le by (intro ulp_multiple) simp
  have bD: "b \<in> D64" unfolding assms(5) using hi_ge assms(8) by (intro ulp_multiple) simp
  have dD: "d \<in> D64" unfolding assms(6) using assms(9,10) by (intro ulp_multiple) simp
  have a0: "0 \<le> a" using assms(7) by (simp add: assms(4))
  have av: "a \<le> z * c"
  proof -
    have "a = of_int lo * u" by (simp add: assms(4) u_def)
    also have "\<dots> \<le> (of_int n * (45 / 64)) * u" using assms(11) u(1) by (intro mult_right_mono) simp_all
    also have "\<dots> = z * (45 / 64)" by (simp add: z)
    also have "\<dots> \<le> z * c" using c(2) zr(1) u(1) by (intro mult_left_mono) simp_all
    finally show ?thesis .
  qed
  have vb: "z * c \<le> b"
  proof -
    have "z * c \<le> z * (23 / 32)" using c(3) zr(1) u(1) by (intro mult_left_mono) simp_all
    also have "\<dots> = (of_int n * (23 / 32)) * u" by (simp add: z)
    also have "\<dots> \<le> of_int hi * u" using assms(12) u(1) by (intro mult_right_mono) simp_all
    finally show ?thesis by (simp add: assms(5) u_def)
  qed
  have b8: "b \<le> 1 / 8"
  proof -
    have "b = of_int hi * u" by (simp add: assms(5) u_def)
    also have "\<dots> \<le> 8 * u" using assms(8) u(1) by (intro mult_right_mono) simp_all
    finally show ?thesis using u(2) by simp
  qed
  have mx: "b \<le> MAX64" using b8 by (intro small_le_MAX64) simp
  from fp_round_near[OF aD a0 av bD vb mx dD]
  obtain r where r: "fp_round binary64 False (z * c) = Fin r" "a \<le> r" "r \<le> b"
    "\<bar>r - z * c\<bar> \<le> \<bar>d - z * c\<bar>" "r \<in> D64" by blast
  have z8: "z \<le> 1 / 8" using zr(2) u by simp
  have z0: "0 < z" using zr(1) u(1) by simp
  have "zoom_step_double (Fin z) False = Fin r"
    using z8 z0 c(1,2) r(1) by (simp add: zoom_step_double_def fmul_Fin)
  moreover have "zoom_snap_double (Fin r) = Fin r" using r(3) b8 by (intro snap_small) simp
  ultimately show ?thesis using r c by blast
qed

lemma tiny_grid:
  assumes "r \<in> D64" "of_int lo * 2 powi (- 1074) < r" "r < of_int (lo + 2) * 2 powi (- 1074)"
  shows "r = of_int (lo + 1) * 2 powi (- 1074)"
proof -
  obtain k where k: "r = of_int k * 2 powi (- 1074)" using D64_grid[OF assms(1)] by blast
  have u: "(0::real) < 2 powi (- 1074)" by simp
  have "real_of_int lo < of_int k" using assms(2) u unfolding k by (simp only: mult_less_cancel_right_pos)
  moreover have "real_of_int k < of_int (lo + 2)" using assms(3) u unfolding k by (simp only: mult_less_cancel_right_pos)
  ultimately have "k = lo + 1" by linarith
  then show ?thesis by (simp add: k)
qed

text \<open>The smallest positive double is a fixed point of both directions.\<close>

lemma inc_1u: "CalcZoomLevel_double (Fin (2 powi (- 1074))) True = Fin (2 powi (- 1074))"
proof -
  define u :: real where "u = 2 powi (- 1074)"
  have u: "0 < u" using ulp_small by (simp add: u_def)
  from step_tiny_inc[of _ 1 _ 1 _ 2 _ 1, OF refl _ _ refl refl refl]
  obtain r c where r: "zoom_step_double (Fin u) True = Fin r" "u \<le> r" "r \<le> 2 * u" "r \<in> D64"
    "\<bar>r - u * c\<bar> \<le> \<bar>u - u * c\<bar>" "45 / 32 \<le> c" "c \<le> 91 / 64" "zoom_snap_double (Fin r) = Fin r"
    unfolding u_def by auto
  have v: "u * (45 / 32) \<le> u * c" "u * c \<le> u * (91 / 64)"
    using r(6,7) u by (simp_all only: mult_le_cancel_left_pos)
  have "0 < r" "r < 2 * u" using r(2,5) v u by linarith+
  then have "of_int 0 * 2 powi (- 1074) < r" "r < of_int (0 + 2) * 2 powi (- 1074)"
    by (simp_all add: u_def)
  from tiny_grid[OF r(4) this] have "r = u" by (simp add: u_def)
  then show ?thesis using r(1,8) by (simp add: CalcZoomLevel_double_def u_def)
qed

lemma dec_1u: "CalcZoomLevel_double (Fin (2 powi (- 1074))) False = Fin (2 powi (- 1074))"
proof -
  define u :: real where "u = 2 powi (- 1074)"
  have u: "0 < u" using ulp_small by (simp add: u_def)
  from step_tiny_dec[of _ 1 _ 0 _ 1 _ 1, OF refl _ _ refl refl refl]
  obtain r c where r: "zoom_step_double (Fin u) False = Fin r" "0 \<le> r" "r \<le> u" "r \<in> D64"
    "\<bar>r - u * c\<bar> \<le> \<bar>u - u * c\<bar>" "45 / 64 \<le> c" "c \<le> 23 / 32" "zoom_snap_double (Fin r) = Fin r"
    unfolding u_def by auto
  have v: "u * (45 / 64) \<le> u * c" "u * c \<le> u * (23 / 32)"
    using r(6,7) u by (simp_all only: mult_le_cancel_left_pos)
  have "0 < r" "r < 2 * u" using r(3,5) v u by linarith+
  then have "of_int 0 * 2 powi (- 1074) < r" "r < of_int (0 + 2) * 2 powi (- 1074)"
    by (simp_all add: u_def)
  from tiny_grid[OF r(4) this] have "r = u" by (simp add: u_def)
  then show ?thesis using r(1,8) by (simp add: CalcZoomLevel_double_def u_def)
qed

text \<open>Twice and three times the smallest positive double.\<close>

lemma inc_2u:
  "\<exists>r. CalcZoomLevel_double (Fin (2 * 2 powi (- 1074))) True = Fin r \<and> 2 * 2 powi (- 1074) < r"
proof -
  define u :: real where "u = 2 powi (- 1074)"
  have u: "0 < u" using ulp_small by (simp add: u_def)
  from step_tiny_inc[of _ 2 _ 2 _ 3 _ 3, OF refl _ _ refl refl refl]
  obtain r c where r: "zoom_step_double (Fin (2 * u)) True = Fin r" "2 * u \<le> r" "r \<le> 3 * u"
    "\<bar>r - 2 * u * c\<bar> \<le> \<bar>3 * u - 2 * u * c\<bar>" "45 / 32 \<le> c" "c \<le> 91 / 64"
    "zoom_snap_double (Fin r) = Fin r"
    unfolding u_def by auto
  have v: "u * (45 / 32) \<le> u * c" "u * c \<le> u * (91 / 64)"
    using r(5,6) u by (simp_all only: mult_le_cancel_left_pos)
  have e: "N * u * c = N * (u * c)" for N :: real by simp
  have "2 * u < r" using r(4) v u unfolding e by linarith
  then show ?thesis using r(1,7) by (auto simp: CalcZoomLevel_double_def u_def)
qed

lemma dec_2u:
  "\<exists>r. CalcZoomLevel_double (Fin (2 * 2 powi (- 1074))) False = Fin r \<and> r < 2 * 2 powi (- 1074)"
proof -
  define u :: real where "u = 2 powi (- 1074)"
  have u: "0 < u" using ulp_small by (simp add: u_def)
  from step_tiny_dec[of _ 2 _ 1 _ 2 _ 1, OF refl _ _ refl refl refl]
  obtain r c where r: "zoom_step_double (Fin (2 * u)) False = Fin r" "u \<le> r" "r \<le> 2 * u"
    "\<bar>r - 2 * u * c\<bar> \<le> \<bar>u - 2 * u * c\<bar>" "45 / 64 \<le> c" "c \<le> 23 / 32"
    "zoom_snap_double (Fin r) = Fin r"
    unfolding u_def by auto
  have v: "u * (45 / 64) \<le> u * c" "u * c \<le> u * (23 / 32)"
    using r(5,6) u by (simp_all only: mult_le_cancel_left_pos)
  have e: "N * u * c = N * (u * c)" for N :: real by simp
  have "r < 2 * u" using r(4) v u unfolding e by linarith
  then show ?thesis using r(1,7) by (auto simp: CalcZoomLevel_double_def u_def)
qed

lemma inc_3u:
  "\<exists>r. CalcZoomLevel_double (Fin (3 * 2 powi (- 1074))) True = Fin r \<and> 3 * 2 powi (- 1074) < r"
proof -
  define u :: real where "u = 2 powi (- 1074)"
  have u: "0 < u" using ulp_small by (simp add: u_def)
  from step_tiny_inc[of _ 3 _ 4 _ 5 _ 4, OF refl _ _ refl refl refl]
  obtain r where r: "zoom_step_double (Fin (3 * u)) True = Fin r" "4 * u \<le> r"
    "zoom_snap_double (Fin r) = Fin r"
    unfolding u_def by auto
  have "3 * u < r" using r(2) u by linarith
  then show ?thesis using r(1,3) by (auto simp: CalcZoomLevel_double_def u_def)
qed

lemma dec_3u:
  "\<exists>r. CalcZoomLevel_double (Fin (3 * 2 powi (- 1074))) False = Fin r \<and> r < 3 * 2 powi (- 1074)"
proof -
  define u :: real where "u = 2 powi (- 1074)"
  have u: "0 < u" using ulp_small by (simp add: u_def)
  from step_tiny_dec[of _ 3 _ 2 _ 3 _ 2, OF refl _ _ refl refl refl]
  obtain r c where r: "zoom_step_double (Fin (3 * u)) False = Fin r" "2 * u \<le> r" "r \<le> 3 * u"
    "\<bar>r - 3 * u * c\<bar> \<le> \<bar>2 * u - 3 * u * c\<bar>" "45 / 64 \<le> c" "c \<le> 23 / 32"
    "zoom_snap_double (Fin r) = Fin r"
    unfolding u_def by auto
  have v: "u * (45 / 64) \<le> u * c" "u * c \<le> u * (23 / 32)"
    using r(5,6) u by (simp_all only: mult_le_cancel_left_pos)
  have e: "N * u * c = N * (u * c)" for N :: real by simp
  have "r < 3 * u" using r(4) v u unfolding e by linarith
  then show ?thesis using r(1,7) by (auto simp: CalcZoomLevel_double_def u_def)
qed

subsection \<open>The upper end of the range, and every double in between\<close>

text \<open>The tie at \<open>2^52 + 0.5\<close> goes to the even neighbour \<open>2^52\<close>.\<close>

lemma rnd64_tie: "rnd64 (2 ^ 52 + 1 / 2) = 2 ^ 52"
proof -
  have "\<lfloor>log 2 \<bar>2 ^ 52 + 1 / 2 :: real\<bar>\<rfloor> = 52"
    by (subst floor_log2_iff) simp_all
  then have l: "lsb_exp binary64 (2 ^ 52 + 1 / 2) = 0" by (simp add: lsb_exp_def)
  have f: "\<lfloor>(2::real) ^ 52 + 1 / 2\<rfloor> = 2 ^ 52" by (rule floor_unique) simp_all
  have nz: "(2::real) ^ 52 + 1 / 2 \<noteq> 0" by simp
  show ?thesis unfolding rnd_def l using nz f by (simp add: round_half_even_def Let_def)
qed

lemma D64_2p52: "(2 ^ 52 :: real) \<in> D64"
  using dyadic64[of 1 52] by simp

lemma inc_2p52: "CalcZoomLevel_double (Fin (2 ^ 52)) True = Fin (2 ^ 52)"
proof -
  have mx: "(2::real) ^ 52 \<le> MAX64" by (intro small_le_MAX64) simp
  have "fp_round binary64 False (2 ^ 52 + 1 / 2) = Fin (2 ^ 52)"
    unfolding fp_round_def Let_def rnd64_tie using mx by simp
  then have step: "zoom_step_double (Fin (2 ^ 52)) True = Fin (2 ^ 52)"
    by (simp add: zoom_step_double_def fadd_Fin)
  have "2 * (2::real) ^ 52 \<le> MAX64" by (intro small_le_MAX64) simp
  from snap_big_cases[OF D64_2p52 _ this]
  have "zoom_snap_double (Fin (2 ^ 52)) = Fin (2 ^ 52) \<or>
        zoom_snap_double (Fin (2 ^ 52)) = Fin (c_round (2 * 2 ^ 52) / 2)" by auto
  moreover have "c_round (2 * 2 ^ 52) = 2 * 2 ^ 52" using c_round_of_int[of "2 * 2 ^ 52"] by simp
  ultimately have "zoom_snap_double (Fin (2 ^ 52)) = Fin (2 ^ 52)" by auto
  then show ?thesis using step by (simp add: CalcZoomLevel_double_def)
qed

text \<open>Strict monotonicity on every double above the smallest positive one.\<close>

lemma tiny_or_binade:
  assumes "z \<in> D64" "2 powi (- 1074) < z"
  shows "z = 2 * 2 powi (- 1074) \<or> z = 3 * 2 powi (- 1074) \<or> 2 powi (- 1072) \<le> z"
proof -
  obtain n where n: "z = of_int n * 2 powi (- 1074)" using D64_grid[OF assms(1)] by blast
  have u: "(0::real) < 2 powi (- 1074)" by simp
  have "1 * 2 powi (- 1074) < real_of_int n * 2 powi (- 1074)" using assms(2) n by simp
  then have "1 < real_of_int n" using u by (simp only: mult_less_cancel_right_pos)
  then consider "n = 2" | "n = 3" | "4 \<le> n" by linarith
  then show ?thesis
  proof cases
    case 3
    have "(2::real) powi (- 1072) = 4 * 2 powi (- 1074)"
      using powi_split[of 2 "- 1074"] by simp
    also have "\<dots> \<le> of_int n * 2 powi (- 1074)" using 3 by (intro mult_right_mono) simp_all
    finally show ?thesis using n by simp
  qed (simp_all add: n)
qed

lemma CalcZoomLevel_double_inc:
  assumes "z \<in> D64" "2 powi (- 1074) < z" "z < 2 ^ 52"
  shows "\<exists>r. CalcZoomLevel_double (Fin z) True = Fin r \<and> z < r"
proof -
  from tiny_or_binade[OF assms(1,2)]
  consider "z = 2 * 2 powi (- 1074)" | "z = 3 * 2 powi (- 1074)" | "2 powi (- 1072) \<le> z" by blast
  then show ?thesis
  proof cases
    case 1 show ?thesis unfolding 1 by (rule inc_2u)
  next
    case 2 show ?thesis unfolding 2 by (rule inc_3u)
  next
    case 3
    consider "2 \<le> z" | "1 \<le> z" "z < 2" | "1 / 8 \<le> z" "z < 1" | "z < 1 / 8" by linarith
    then show ?thesis
    proof cases
      case 1 then show ?thesis using inc_ge2[OF assms(1) _ assms(3)] by blast
    next
      case 2 then show ?thesis using inc_1_2[OF assms(1)] by blast
    next
      case 3 then show ?thesis using inc_18_1[OF assms(1)] by blast
    next
      case 4 then show ?thesis using inc_small[OF assms(1) \<open>2 powi (- 1072) \<le> z\<close>] by blast
    qed
  qed
qed

lemma CalcZoomLevel_double_dec:
  assumes "z \<in> D64" "2 powi (- 1074) < z" "z \<le> 2 ^ 52"
  shows "\<exists>r. CalcZoomLevel_double (Fin z) False = Fin r \<and> r < z"
proof -
  from tiny_or_binade[OF assms(1,2)]
  consider "z = 2 * 2 powi (- 1074)" | "z = 3 * 2 powi (- 1074)" | "2 powi (- 1072) \<le> z" by blast
  then show ?thesis
  proof cases
    case 1 show ?thesis unfolding 1 by (rule dec_2u)
  next
    case 2 show ?thesis unfolding 2 by (rule dec_3u)
  next
    case 3
    consider "2 < z" | "1 < z" "z \<le> 2" | "1 / 8 < z" "z \<le> 1" | "z \<le> 1 / 8" by linarith
    then show ?thesis
    proof cases
      case 1 then show ?thesis using dec_gt2[OF assms(1) _ assms(3)] by blast
    next
      case 2 then show ?thesis using dec_1_2[OF assms(1)] by blast
    next
      case 3 then show ?thesis using dec_18_1[OF assms(1)] by blast
    next
      case 4 then show ?thesis using dec_small[OF assms(1) \<open>2 powi (- 1072) \<le> z\<close>] by blast
    qed
  qed
qed

subsection \<open>The snap on values that are already snapped\<close>

text \<open>The snap on the values that are not finite numbers, and on negative zero.\<close>

lemma snap_special:
  "zoom_snap_double NaN = NaN" "zoom_snap_double NInf = NInf" "zoom_snap_double NegZero = NegZero"
  "zoom_snap_double PInf = PInf"
  by (simp_all add: zoom_snap_double_def fge_def fgt_def fle_def flt_def feq_def is_inf_def
      fmul_def fsub_def fadd_def signed_inf_def Let_def)

lemma std_min_not_PInf: "std_min (Fin a) x \<noteq> PInf"
  by (auto simp: std_min_def flt_def)

text \<open>When doubling overflows, the nearest half is infinite and the value is kept.\<close>

lemma snap_huge:
  assumes "s \<in> D64" "1 \<le> s" "MAX64 < 2 * s"
  shows "zoom_snap_double (Fin s) = Fin s"
proof -
  have d2: "s * 2 \<in> D64" using representable_scale[OF assms(1), of 1] by simp
  have "rnd64 (s * 2) = s * 2" using d2 by (intro rnd_id) simp_all
  then have "fp_round binary64 False (s * 2) = PInf"
    using assms(2,3) by (simp add: fp_round_def Let_def signed_inf_def mult.commute)
  then have m: "fmul binary64 (Fin s) (Fin 2.0) = PInf" using assms(2) by (simp add: fmul_Fin)
  have nh: "fmul binary64 (fround PInf) (Fin 0.5) = PInf"
    by (simp add: fmul_def is_inf_def signed_inf_def)
  have sub: "ffabs (fsub binary64 PInf (Fin s)) = PInf"
    by (simp add: fsub_def fadd_def is_inf_def)
  have "\<not> fle PInf (std_min (Fin 0.25) (fmul binary64 (fp_literal binary64 0.1) (Fin s)))"
    using std_min_not_PInf[of "0.25" "fmul binary64 (fp_literal binary64 0.1) (Fin s)"]
    by (auto simp: fle_def flt_def feq_def is_inf_def)
  then show ?thesis using assms(2) m nh sub by (simp add: zoom_snap_double_def Let_def)
qed

text \<open>Half-integers from 1 on and eighths up to 1 are fixed points of the snap.\<close>

lemma snap_half_fixed:
  assumes "h \<in> D64" "1 \<le> h" "2 * h = of_int k"
  shows "zoom_snap_double (Fin h) = Fin h"
proof (cases "2 * h \<le> MAX64")
  case True
  have "c_round (2 * h) / 2 = h" using c_round_of_int[of k] assms(3) by simp
  then show ?thesis using snap_big_cases[OF assms(1,2) True] by auto
next
  case False
  then show ?thesis using snap_huge[OF assms(1,2)] by simp
qed

lemma snap_eighth_fixed:
  assumes "2 \<le> k" "k \<le> 8"
  shows "zoom_snap_double (Fin (of_int k / 8)) = Fin (of_int k / 8)"
proof -
  define e where "e = real_of_int k / 8"
  have "of_int k * 2 powi (- 3) \<in> D64" using assms by (intro dyadic64) simp_all
  then have eD: "e \<in> D64" by (simp add: e_def power_int_minus field_simps)
  have r: "2 \<le> real_of_int k" "real_of_int k \<le> 8" using assms by simp_all
  consider "e \<le> 1 / 4" | "1 / 4 < e" "e < 1" | "1 \<le> e" by linarith
  then have "zoom_snap_double (Fin e) = Fin e"
  proof cases
    case 1 then show ?thesis by (rule snap_small)
  next
    case 2
    have "c_round (8 * e) / 8 = e" using c_round_of_int[of k] by (simp add: e_def)
    then show ?thesis using snap_mid_cases[OF eD 2] by auto
  next
    case 3
    have "2 * e = of_int (2 :: int)" using 3 r by (simp add: e_def)
    then show ?thesis using snap_half_fixed[OF eD 3] by blast
  qed
  then show ?thesis by (simp add: e_def)
qed

lemma MAX64_int: "MAX64 = of_int ((2 ^ 53 - 1) * 2 ^ 971)"
  by (simp add: largest64)

lemma zoom_snap_double_idem:
  assumes "is_fp binary64 x"
  shows "zoom_snap_double (zoom_snap_double x) = zoom_snap_double x"
proof (cases x)
  case (Fin s)
  have sD: "s \<in> D64" and sM: "\<bar>s\<bar> \<le> MAX64" using assms Fin by simp_all
  consider "s \<le> 1 / 4" | "1 / 4 < s" "s < 1" | "1 \<le> s" "2 * s \<le> MAX64" | "1 \<le> s" "MAX64 < 2 * s"
    by linarith
  then show ?thesis
  proof cases
    case 1
    then show ?thesis by (simp add: Fin snap_small)
  next
    case 2
    obtain k where k: "c_round (8 * s) = of_int k" using c_round_int by blast
    have "2 \<le> c_round (8 * s)" using c_round_mono[of 2 "8 * s"] 2(1) by (simp add: c_round_2)
    moreover have "c_round (8 * s) \<le> 8" using c_round_mono[of "8 * s" 8] 2(2) by (simp add: c_round_8)
    ultimately have "2 \<le> k" "k \<le> 8" using k by simp_all
    from snap_eighth_fixed[OF this]
    have "zoom_snap_double (Fin (c_round (8 * s) / 8)) = Fin (c_round (8 * s) / 8)" by (simp add: k)
    then show ?thesis using snap_mid_cases[OF sD 2] by (auto simp: Fin)
  next
    case 3
    define h where "h = c_round (2 * s) / 2"
    have d2: "2 * s \<in> D64" using representable_scale[OF sD, of 1] by (simp add: mult.commute)
    have hD: "h \<in> D64" unfolding h_def using d2 by (rule c_round_half_D64)
    have "2 \<le> c_round (2 * s)" using c_round_mono[of 2 "2 * s"] 3(1) by (simp add: c_round_2)
    then have h1: "1 \<le> h" by (simp add: h_def)
    obtain k where k: "c_round (2 * s) = of_int k" using c_round_int by blast
    then have "2 * h = of_int k" by (simp add: h_def)
    from snap_half_fixed[OF hD h1 this] have "zoom_snap_double (Fin h) = Fin h" .
    then show ?thesis using snap_big_cases[OF sD 3] by (auto simp: Fin h_def)
  next
    case 4
    then show ?thesis using snap_huge[OF sD] by (simp add: Fin)
  qed
qed (simp_all add: snap_special)

text \<open>A value that the snap moves: 1.03125 goes to 1.\<close>

lemma snap_33_32: "zoom_snap_double (Fin (33 / 32)) = Fin 1"
proof -
  have sD: "(33 / 32 :: real) \<in> D64" using dyadic64[of 33 "- 5"] by (simp add: power_int_minus)
  have mx: "2 * (33 / 32 :: real) \<le> MAX64" by (intro small_le_MAX64) simp
  have "\<lfloor>(33 / 16 :: real) + 1 / 2\<rfloor> = 2" by (rule floor_unique) simp_all
  then have cr: "c_round (2 * (33 / 32)) / 2 = 1" by (simp add: c_round_def)
  have nh: "fmul binary64 (fround (fmul binary64 (Fin (33 / 32)) (Fin 2.0))) (Fin 0.5) = Fin 1"
    using nearest_half[OF sD _ mx] cr by simp
  have nD: "(- (1 / 32) :: real) \<in> D64" using dyadic64[of "- 1" "- 5"] by (simp add: power_int_minus)
  have "- MAX64 \<le> - (1 / 32)" using small_le_MAX64[of "1 / 32"] by simp
  from fp_round_neg[OF nD order_refl nD order_refl _ this, of True]
  have "fp_round binary64 True (- (1 / 32)) = Fin (- (1 / 32))" by simp
  then have sub: "ffabs (fsub binary64 (Fin 1) (Fin (33 / 32))) = Fin (1 / 32)"
    by (simp add: fsub_Fin)
  obtain t where t: "fp_literal binary64 0.1 = Fin t" "3 / 32 \<le> t" "t \<le> 13 / 128"
    using lit_01_double by blast
  have a: "(1 / 16 :: real) \<in> D64" using dyadic64[of 1 "- 4"] by (simp add: power_int_minus)
  have b: "(1 / 8 :: real) \<in> D64" by (rule consts64)
  have lo: "1 / 16 \<le> t * (33 / 32)" using t(2) by simp
  have hi: "t * (33 / 32) \<le> 1 / 8" using t(3) by simp
  have "(1 / 8 :: real) \<le> MAX64" by (intro small_le_MAX64) simp
  from fp_round_between[OF a _ lo b hi this, of False]
  obtain w where w: "fmul binary64 (Fin t) (Fin (33 / 32)) = Fin w" "1 / 16 \<le> w" "w \<le> 1 / 8"
    using t(2) by (simp add: fmul_Fin)
  have "fle (Fin (1 / 32)) (std_min (Fin 0.25) (fmul binary64 (fp_literal binary64 0.1) (Fin (33 / 32))))"
    using w by (simp add: t(1) std_min_def)
  then show ?thesis using nh sub by (simp add: zoom_snap_double_def Let_def)
qed


subsection \<open>Claim about the direction of a step and the snap\<close>

text \<open>
  Claim C7, as stated, fails in double precision at both ends of the range of positive
  zoom levels. The smallest positive double, \<open>2^-1074\<close>, is a fixed point of both
  directions: its product with the double nearest to the square root of 2 rounds back
  to it, and so does its product with \<open>1.0/sqrt(2.0)\<close>. At \<open>2^52\<close> the sum
  \<open>zoom + 0.5\<close> lies halfway between two doubles and is rounded to the even one, which
  is \<open>2^52\<close>: the increase returns its argument.
\<close>

theorem CalcZoomLevel_double_counterexample:
  "CalcZoomLevel_double (Fin (2 powi (- 1074))) False = Fin (2 powi (- 1074)) \<and>
   CalcZoomLevel_double (Fin (2 powi (- 1074))) True = Fin (2 powi (- 1074)) \<and>
   CalcZoomLevel_double (Fin (2 ^ 52)) True = Fin (2 ^ 52)"
  using dec_1u inc_1u inc_2p52 by blast

text \<open>
  Claim C7, amended. For every double \<open>zoom\<close> greater than the smallest positive double
  \<open>2^-1074\<close> and less than \<open>2^52\<close>, \<open>CalcZoomLevel(zoom, true)\<close> is a finite double
  strictly greater than \<open>zoom\<close>; for every double \<open>zoom\<close> greater than \<open>2^-1074\<close> and at
  most \<open>2^52\<close>, \<open>CalcZoomLevel(zoom, false)\<close> is a finite double strictly less than
  \<open>zoom\<close>. And the snap is idempotent on every value of type \<open>double\<close>, finite or not:
  snapping a snapped value returns it unchanged.
\<close>

theorem CalcZoomLevel_double_monotonic_snap_idempotent:
  "(z \<in> D64 \<and> 2 powi (- 1074) < z \<and> z < 2 ^ 52 \<longrightarrow>
      (\<exists>r. CalcZoomLevel_double (Fin z) True = Fin r \<and> z < r)) \<and>
   (z \<in> D64 \<and> 2 powi (- 1074) < z \<and> z \<le> 2 ^ 52 \<longrightarrow>
      (\<exists>r. CalcZoomLevel_double (Fin z) False = Fin r \<and> r < z)) \<and>
   (is_fp binary64 x \<longrightarrow> zoom_snap_double (zoom_snap_double x) = zoom_snap_double x)"
  using CalcZoomLevel_double_inc[of z] CalcZoomLevel_double_dec[of z] zoom_snap_double_idem[of x]
  by blast

text \<open>
  At zoom 1 both directions are strict; 1.03125 is a double that the snap moves, to 1,
  and 1 is then kept.
\<close>

theorem CalcZoomLevel_double_monotonic_witness:
  "(1::real) \<in> D64 \<and> 2 powi (- 1074) < (1::real) \<and> (1::real) < 2 ^ 52 \<and>
   (\<exists>r. CalcZoomLevel_double (Fin 1) True = Fin r \<and> 1 < r) \<and>
   (\<exists>r. CalcZoomLevel_double (Fin 1) False = Fin r \<and> r < 1) \<and>
   is_fp binary64 (Fin (33 / 32)) \<and>
   zoom_snap_double (Fin (33 / 32)) = Fin 1 \<and> zoom_snap_double (Fin 1) = Fin 1"
proof -
  have a: "(1::real) \<in> D64" by (rule consts64)
  have b: "2 powi (- 1074) < (1::real)" using ulp_small(2) by linarith
  have c: "(1::real) < 2 ^ 52" by simp
  have d: "is_fp binary64 (Fin (33 / 32))"
    using dyadic64[of 33 "- 5"] small_le_MAX64[of "33 / 32"] by (simp add: power_int_minus)
  show ?thesis
    using CalcZoomLevel_double_monotonic_snap_idempotent[of 1 "Fin (33 / 32)"] a b c d
    unfolding snap_33_32 by simp
qed

section \<open>Mip level controller: proofs\<close>

text \<open>
  Claim C3. With a valid handle and a mip count other than 1, a request of -1 sets the
  base level of the texture bound to the target to 0 and its maximum level to
  \<open>numMips - 1\<close>. With a valid handle and more than one mip level, a request \<open>\<ge> 0\<close> sets
  base and maximum level both to the request clamped to \<open>[0, numMips - 1]\<close>. With handle 0
  or exactly one mip level the GL state is returned as it was. When \<open>bindTexture\<close> is set,
  the texture bound to the target is the texture's own handle.
\<close>

theorem SetMipmapLevel_policy:
  "(glTextureHandle t \<noteq> 0 \<and> GetNumMips t \<noteq> 1 \<and> requestedLevel = -1 \<longrightarrow>
      (let gl' = SetMipmapLevel t requestedLevel b gl; cur = bound_texture gl' (glTarget t)
       in base_level gl' cur = 0 \<and> max_level gl' cur = GetNumMips t - 1 \<and>
          (b \<longrightarrow> cur = glTextureHandle t))) \<and>
   (glTextureHandle t \<noteq> 0 \<and> 1 < GetNumMips t \<and> 0 \<le> requestedLevel \<longrightarrow>
      (let gl' = SetMipmapLevel t requestedLevel b gl; cur = bound_texture gl' (glTarget t)
       in base_level gl' cur = clamp_level (GetNumMips t) requestedLevel \<and>
          max_level gl' cur = clamp_level (GetNumMips t) requestedLevel \<and>
          (b \<longrightarrow> cur = glTextureHandle t))) \<and>
   (glTextureHandle t = 0 \<or> GetNumMips t = 1 \<longrightarrow> SetMipmapLevel t requestedLevel b gl = gl)"
  by (auto simp: SetMipmapLevel_def Let_def glBindTexture_def clamp_level_def)

theorem SetMipmapLevel_policy_witness:
  "base_level (SetMipmapLevel \<lparr>glTextureHandle = 7, glTarget = 3553, GetNumMips = 5\<rparr> (-1) True
      \<lparr>bound_texture = (\<lambda>_. 0), base_level = (\<lambda>_. 0), max_level = (\<lambda>_. 1000)\<rparr>) 7 = 0 \<and>
   max_level (SetMipmapLevel \<lparr>glTextureHandle = 7, glTarget = 3553, GetNumMips = 5\<rparr> (-1) True
      \<lparr>bound_texture = (\<lambda>_. 0), base_level = (\<lambda>_. 0), max_level = (\<lambda>_. 1000)\<rparr>) 7 = 4 \<and>
   base_level (SetMipmapLevel \<lparr>glTextureHandle = 7, glTarget = 3553, GetNumMips = 5\<rparr> 9 True
      \<lparr>bound_texture = (\<lambda>_. 0), base_level = (\<lambda>_. 0), max_level = (\<lambda>_. 1000)\<rparr>) 7 = 4 \<and>
   max_level (SetMipmapLevel \<lparr>glTextureHandle = 7, glTarget = 3553, GetNumMips = 5\<rparr> 9 True
      \<lparr>bound_texture = (\<lambda>_. 0), base_level = (\<lambda>_. 0), max_level = (\<lambda>_. 1000)\<rparr>) 7 = 4 \<and>
   SetMipmapLevel \<lparr>glTextureHandle = 7, glTarget = 3553, GetNumMips = 1\<rparr> 2 True
      \<lparr>bound_texture = (\<lambda>_. 0), base_level = (\<lambda>_. 0), max_level = (\<lambda>_. 1000)\<rparr>
    = \<lparr>bound_texture = (\<lambda>_. 0), base_level = (\<lambda>_. 0), max_level = (\<lambda>_. 1000)\<rparr>"
  using
    SetMipmapLevel_policy[of "\<lparr>glTextureHandle = 7, glTarget = 3553, GetNumMips = 5\<rparr>" "-1" True
      "\<lparr>bound_texture = (\<lambda>_. 0), base_level = (\<lambda>_. 0), max_level = (\<lambda>_. 1000)\<rparr>"]
    SetMipmapLevel_policy[of "\<lparr>glTextureHandle = 7, glTarget = 3553, GetNumMips = 5\<rparr>" 9 True
      "\<lparr>bound_texture = (\<lambda>_. 0), base_level = (\<lambda>_. 0), max_level = (\<lambda>_. 1000)\<rparr>"]
    SetMipmapLevel_policy[of "\<lparr>glTextureHandle = 7, glTarget = 3553, GetNumMips = 1\<rparr>" 2 True
      "\<lparr>bound_texture = (\<lambda>_. 0), base_level = (\<lambda>_. 0), max_level = (\<lambda>_. 1000)\<rparr>"]
  by (simp add: Let_def clamp_level_def SetMipmapLevel_def glBindTexture_def)

section \<open>Shader synthesizer: proofs\<close>

text \<open>
  Claim C4. Provided the GL implementation hands out a program name that is not in use,
  and \<open>shaderProgram\<close>, when not 0, names a live program: if a compilation or the link
  fails, \<open>UpdateShaders\<close> returns false and \<open>shaderProgram\<close>, the set of live programs and
  the program in use are what they were (so a first build that fails leaves
  \<open>shaderProgram\<close> at 0, and a failed rebuild leaves the previous program alive and
  current); if all stages succeed it returns true, the new program is \<open>shaderProgram\<close>,
  alive and in use, and the previous program, if there was one, has been deleted.
\<close>

theorem UpdateShaders_atomic:
  assumes fresh: "program_name gl \<notin> live_programs st"
      and live: "shaderProgram st \<noteq> 0 \<longrightarrow> shaderProgram st \<in> live_programs st"
  shows "(\<not> build_succeeds gl \<longrightarrow>
            fst (UpdateShaders gl st) = False \<and>
            shaderProgram (snd (UpdateShaders gl st)) = shaderProgram st \<and>
            live_programs (snd (UpdateShaders gl st)) = live_programs st \<and>
            used_program (snd (UpdateShaders gl st)) = used_program st) \<and>
         (build_succeeds gl \<longrightarrow>
            fst (UpdateShaders gl st) = True \<and>
            shaderProgram (snd (UpdateShaders gl st)) = program_name gl \<and>
            used_program (snd (UpdateShaders gl st)) = program_name gl \<and>
            program_name gl \<in> live_programs (snd (UpdateShaders gl st)) \<and>
            (shaderProgram st \<noteq> 0 \<longrightarrow>
               shaderProgram st \<notin> live_programs (snd (UpdateShaders gl st))))"
  using assms
  by (auto simp: UpdateShaders_def build_succeeds_def CompileShader_def CreateShaderProgram_def
        glDeleteShader_def glDeleteProgram_def glUseProgram_def Let_def
      split: prod.splits if_splits)

theorem UpdateShaders_atomic_witness:
  "shaderProgram (snd (UpdateShaders
      \<lparr>vertex_name = 4, vertex_compiled = True, fragment_name = 5,
         fragment_compiled = True, program_name = 6, program_linked = False\<rparr>
      \<lparr>shaderProgram = 3, live_shaders = {}, live_programs = {3},
         used_program = 3, simpleSwizzle = ''rgba'', useSimpleSwizzle = True, swizzle = []\<rparr>)) = 3 \<and>
   live_programs (snd (UpdateShaders
      \<lparr>vertex_name = 4, vertex_compiled = True, fragment_name = 5,
         fragment_compiled = True, program_name = 6, program_linked = False\<rparr>
      \<lparr>shaderProgram = 3, live_shaders = {}, live_programs = {3},
         used_program = 3, simpleSwizzle = ''rgba'', useSimpleSwizzle = True, swizzle = []\<rparr>)) = {3} \<and>
   shaderProgram (snd (UpdateShaders
      \<lparr>vertex_name = 4, vertex_compiled = True, fragment_name = 5,
         fragment_compiled = True, program_name = 6, program_linked = True\<rparr>
      \<lparr>shaderProgram = 3, live_shaders = {}, live_programs = {3},
         used_program = 3, simpleSwizzle = ''rgba'', useSimpleSwizzle = True, swizzle = []\<rparr>)) = 6 \<and>
   3 \<notin> live_programs (snd (UpdateShaders
      \<lparr>vertex_name = 4, vertex_compiled = True, fragment_name = 5,
         fragment_compiled = True, program_name = 6, program_linked = True\<rparr>
      \<lparr>shaderProgram = 3, live_shaders = {}, live_programs = {3},
         used_program = 3, simpleSwizzle = ''rgba'', useSimpleSwizzle = True, swizzle = []\<rparr>))"
  using
    UpdateShaders_atomic[of
      "\<lparr>vertex_name = 4, vertex_compiled = True, fragment_name = 5,
         fragment_compiled = True, program_name = 6, program_linked = False\<rparr>"
      "\<lparr>shaderProgram = 3, live_shaders = {}, live_programs = {3},
         used_program = 3, simpleSwizzle = ''rgba'', useSimpleSwizzle = True, swizzle = []\<rparr>"]
    UpdateShaders_atomic[of
      "\<lparr>vertex_name = 4, vertex_compiled = True, fragment_name = 5,
         fragment_compiled = True, program_name = 6, program_linked = True\<rparr>"
      "\<lparr>shaderProgram = 3, live_shaders = {}, live_programs = {3},
         used_program = 3, simpleSwizzle = ''rgba'', useSimpleSwizzle = True, swizzle = []\<rparr>"]
  by (simp add: build_succeeds_def)

section \<open>Cubemap drawing: proofs\<close>

lemma cross_middle_unfold:
  "cross_middle v (v + 4) px py off a sz =
    (case array_at middleIndices (c_rem v 4) of None \<Rightarrow> None | Some f0 \<Rightarrow>
     case array_at middleIndices (c_rem (v + 1) 4) of None \<Rightarrow> None | Some f1 \<Rightarrow>
     case array_at middleIndices (c_rem (v + 2) 4) of None \<Rightarrow> None | Some f2 \<Rightarrow>
     case array_at middleIndices (c_rem (v + 3) 4) of None \<Rightarrow> None | Some f3 \<Rightarrow>
       Some [\<lparr>tile_mip = - 1, tile_face = f0, tile_array = a, tile_pos = (px, py), tile_size = sz\<rparr>,
             \<lparr>tile_mip = - 1, tile_face = f1, tile_array = a, tile_pos = (px + off, py), tile_size = sz\<rparr>,
             \<lparr>tile_mip = - 1, tile_face = f2, tile_array = a, tile_pos = (px + off + off, py), tile_size = sz\<rparr>,
             \<lparr>tile_mip = - 1, tile_face = f3, tile_array = a, tile_pos = (px + off + off + off, py), tile_size = sz\<rparr>])"
  apply (subst cross_middle.simps)
  apply (subst cross_middle.simps)
  apply (subst cross_middle.simps)
  apply (subst cross_middle.simps)
  apply (subst cross_middle.simps)
  apply (simp add: add.assoc split: option.splits)
  done

lemmas FI_defs = FI_XPOS_def FI_XNEG_def FI_YPOS_def FI_YNEG_def FI_ZPOS_def FI_ZNEG_def

lemma middle_at:
  "array_at middleIndices 0 = Some FI_XNEG"
  "array_at middleIndices 1 = Some FI_ZPOS"
  "array_at middleIndices 2 = Some FI_XPOS"
  "array_at middleIndices 3 = Some FI_ZNEG"
  by (simp_all add: array_at_def middleIndices_def)

lemma c_rem_4:
  "c_rem 0 4 = 0" "c_rem 1 4 = 1" "c_rem 2 4 = 2" "c_rem 3 4 = 3"
  "c_rem 4 4 = 0" "c_rem 5 4 = 1" "c_rem 6 4 = 2"
  by (simp_all add: c_rem_def)

lemma middle_faces:
  assumes "variant \<in> {0, 1, 2, 3}"
  shows "cross_middle variant (variant + 4) px py off a sz =
     Some (map (\<lambda>(f, k). \<lparr>tile_mip = - 1, tile_face = f, tile_array = a,
                    tile_pos = (px + of_nat k * off, py), tile_size = sz\<rparr>)
            (zip (rotate (nat variant) [FI_XNEG, FI_ZPOS, FI_XPOS, FI_ZNEG]) [0, 1, 2, 3]))"
proof -
  from assms consider "variant = 0" | "variant = 1" | "variant = 2" | "variant = 3" by auto
  then show ?thesis
  proof cases
    case 1 then show ?thesis unfolding cross_middle_unfold
      by (simp add: c_rem_4 middle_at algebra_simps)
  next
    case 2 then show ?thesis unfolding cross_middle_unfold
      by (simp add: c_rem_4 middle_at algebra_simps eval_nat_numeral)
  next
    case 3 then show ?thesis unfolding cross_middle_unfold
      by (simp add: c_rem_4 middle_at algebra_simps eval_nat_numeral)
  next
    case 4 then show ?thesis unfolding cross_middle_unfold
      by (simp add: c_rem_4 middle_at algebra_simps eval_nat_numeral)
  qed
qed


text \<open>With a valid handle \<open>DrawCubeQuad\<close> issues four vertices.\<close>

lemma DrawCubeQuad_quad:
  "glTextureHandle t \<noteq> 0 \<Longrightarrow>
   length (snd (DrawCubeQuad t mipmapLevel variant mipLevel face layer pos sz texCoordMax gl)) = 4"
  by (simp add: DrawCubeQuad_def Let_def)

lemma rotate_four:
  "rotate 0 [a, b, c, d] = [a, b, c, d]"
  "rotate 1 [a, b, c, d] = [b, c, d, a]"
  "rotate 2 [a, b, c, d] = [c, d, a, b]"
  "rotate 3 [a, b, c, d] = [d, a, b, c]"
  by (simp_all add: eval_nat_numeral)

text \<open>
  Claim C5. For every \<open>cubeCrossVariant\<close> from 0 to 3 the cross layout issues exactly six
  tiles, whose faces are the six cube faces, each once: first +Y at \<open>(offset, 0)\<close>, the
  second cell of the top row; then, left to right in the middle row, the four side faces
  in the cyclic order X-, Z+, X+, Z- started \<open>cubeCrossVariant\<close> places in; last -Y at
  \<open>(offset, 2 * offset)\<close>, below the second cell of the middle row. \<open>offset\<close> is the face
  width plus the spacing. For a texture with a valid handle each of the six calls of
  \<open>DrawCubeQuad\<close> issues one quad of four vertices.
\<close>

theorem cube_cross_layout:
  assumes "variant \<in> {0, 1, 2, 3}"
  shows "\<exists>tiles. DrawTexture_cube texW texH spacing variant arrayIndex = Some tiles \<and>
           length tiles = 6 \<and>
           distinct (map tile_face tiles) \<and>
           set (map tile_face tiles) = {FI_XPOS, FI_XNEG, FI_YPOS, FI_YNEG, FI_ZPOS, FI_ZNEG} \<and>
           map tile_face tiles =
             [FI_YPOS] @ rotate (nat variant) [FI_XNEG, FI_ZPOS, FI_XPOS, FI_ZNEG] @ [FI_YNEG] \<and>
           map tile_pos tiles =
             (let offset = texW + of_int spacing
              in [(offset, 0),
                  (0, offset), (offset, offset), (2 * offset, offset), (3 * offset, offset),
                  (offset, 2 * offset)]) \<and>
           (glTextureHandle t \<noteq> 0 \<longrightarrow>
              (\<forall>tile \<in> set tiles.
                 length (snd (DrawCubeQuad t mipmapLevel variant (tile_mip tile)
                                (tile_face tile) (tile_array tile) (tile_pos tile)
                                (tile_size tile) (1, 1) gl)) = 4))"
proof -
  let ?all = "{FI_XPOS, FI_XNEG, FI_YPOS, FI_YNEG, FI_ZPOS, FI_ZNEG}"
  have perm: "{FI_YPOS, FI_XNEG, FI_ZPOS, FI_XPOS, FI_ZNEG, FI_YNEG} = ?all"
             "{FI_YPOS, FI_ZPOS, FI_XPOS, FI_ZNEG, FI_XNEG, FI_YNEG} = ?all"
             "{FI_YPOS, FI_XPOS, FI_ZNEG, FI_XNEG, FI_ZPOS, FI_YNEG} = ?all"
             "{FI_YPOS, FI_ZNEG, FI_XNEG, FI_ZPOS, FI_XPOS, FI_YNEG} = ?all"
    by auto
  from assms consider "variant = 0" | "variant = 1" | "variant = 2" | "variant = 3" by auto
  then have "\<exists>f0 f1 f2 f3.
      rotate (nat variant) [FI_XNEG, FI_ZPOS, FI_XPOS, FI_ZNEG] = [f0, f1, f2, f3] \<and>
      distinct [FI_YPOS, f0, f1, f2, f3, FI_YNEG] \<and>
      {FI_YPOS, f0, f1, f2, f3, FI_YNEG} = ?all"
  proof cases
    case 1 then show ?thesis using perm(1) by (simp add: rotate_four) (simp add: FI_defs)
  next
    case 2 then show ?thesis using perm(2) by (simp add: rotate_four) (simp add: FI_defs)
  next
    case 3 then show ?thesis using perm(3) by (simp add: rotate_four) (simp add: FI_defs)
  next
    case 4 then show ?thesis using perm(4) by (simp add: rotate_four) (simp add: FI_defs)
  qed
  then obtain f0 f1 f2 f3
    where r: "rotate (nat variant) [FI_XNEG, FI_ZPOS, FI_XPOS, FI_ZNEG] = [f0, f1, f2, f3]"
      and d: "distinct [FI_YPOS, f0, f1, f2, f3, FI_YNEG]"
      and st: "{FI_YPOS, f0, f1, f2, f3, FI_YNEG} = ?all"
    by blast
  show ?thesis
    unfolding DrawTexture_cube_def Let_def middle_faces[OF assms] r
    using d st by (simp add: algebra_simps DrawCubeQuad_quad)
qed

theorem cube_cross_layout_witness:
  "map_option (map tile_face) (DrawTexture_cube 64 64 2 1 0) =
     Some [FI_YPOS, FI_ZPOS, FI_XPOS, FI_ZNEG, FI_XNEG, FI_YNEG] \<and>
   map_option (map tile_pos) (DrawTexture_cube 64 64 2 1 0) =
     Some [(66, 0), (0, 66), (66, 66), (132, 66), (198, 66), (66, 132)] \<and>
   map_option
     (map (\<lambda>tile. length (snd (DrawCubeQuad
              \<lparr>glTextureHandle = 7, glTarget = 34067, GetNumMips = 1\<rparr> (- 1) 1
              (tile_mip tile) (tile_face tile) (tile_array tile) (tile_pos tile)
              (tile_size tile) (1, 1)
              \<lparr>bound_texture = (\<lambda>_. 0), base_level = (\<lambda>_. 0), max_level = (\<lambda>_. 0)\<rparr>))))
     (DrawTexture_cube 64 64 2 1 0) = Some [4, 4, 4, 4, 4, 4]"
  using cube_cross_layout[of 1 64 64 2 0
          "\<lparr>glTextureHandle = 7, glTarget = 34067, GetNumMips = 1\<rparr>" "- 1"
          "\<lparr>bound_texture = (\<lambda>_. 0), base_level = (\<lambda>_. 0), max_level = (\<lambda>_. 0)\<rparr>"]
  by (auto simp: rotate_four)


lemma map_coord_spec:
  assumes "face \<in> {FI_XPOS, FI_XNEG, FI_YPOS, FI_YNEG, FI_ZPOS, FI_ZNEG}"
  shows "map_coord face layer (vec4_xy u v) = Some (spec_corner face layer (u, v))"
  using assms
  by (auto simp: map_coord_def cube_face_switch_def spec_corner_def spec_face_basis_def
        vec4_xy_def vec4_xyz_def set_w_def FI_defs)

lemma rotate_mapCoords_four:
  "rotate_mapCoords 1 [a, b, c, d] = [b, c, d, a]"
  "rotate_mapCoords 2 [a, b, c, d] = [c, d, a, b]"
  "rotate_mapCoords 3 [a, b, c, d] = [d, a, b, c]"
  by (simp_all add: rotate_mapCoords_def array_at_def c_rem_def)

lemma DrawCubeQuad_coords:
  assumes "glTextureHandle t \<noteq> 0"
  shows "map fst (snd (DrawCubeQuad t mipmapLevel variant mipLevel face layer pos sz texCoordMax gl)) =
     (let mapCoords = map (\<lambda>uv. map_coord face layer (vec4_xy (fst uv) (snd uv))) (quad_corners texCoordMax)
      in if variant > 0 \<and> (face = FI_YPOS \<or> face = FI_YNEG)
         then rotate_mapCoords (if face = FI_YPOS then variant else 4 - variant) mapCoords
         else mapCoords)"
  using assms
  by (simp add: DrawCubeQuad_def Let_def quad_corners_def rotate_mapCoords_def mult.commute)

text \<open>
  Claim C6. For each of the six faces, a corner \<open>(u, v)\<close> is mapped to the direction of
  the per-face table with the array layer as fourth component. For a texture with a valid
  handle and \<open>cubeCrossVariant\<close> from 0 to 3, the four texture coordinates \<open>DrawCubeQuad\<close>
  issues are those of the four quad corners, in drawing order, rotated cyclically: by
  \<open>cubeCrossVariant\<close> steps for +Y and by \<open>4 - cubeCrossVariant\<close> steps for -Y when the
  variant is not 0, and not at all otherwise.
\<close>

theorem DrawCubeQuad_texcoords:
  assumes handle: "glTextureHandle t \<noteq> 0"
      and face: "face \<in> {FI_XPOS, FI_XNEG, FI_YPOS, FI_YNEG, FI_ZPOS, FI_ZNEG}"
      and variant: "variant \<in> {0, 1, 2, 3}"
  shows "map_coord face layer (vec4_xy u v) = Some (spec_corner face layer (u, v)) \<and>
         map fst (snd (DrawCubeQuad t mipmapLevel variant mipLevel face layer pos sz
                         texCoordMax gl)) =
           rotate (spec_rotation face variant)
             (map (\<lambda>uv. Some (spec_corner face layer uv)) (quad_corners texCoordMax))"
proof
  show "map_coord face layer (vec4_xy u v) = Some (spec_corner face layer (u, v))"
    using face by (rule map_coord_spec)
next
  define cs where "cs = map (\<lambda>uv. Some (spec_corner face layer uv)) (quad_corners texCoordMax)"
  have mc: "map (\<lambda>uv. map_coord face layer (vec4_xy (fst uv) (snd uv))) (quad_corners texCoordMax) = cs"
    by (simp add: cs_def map_coord_spec[OF face])
  obtain a b c d where abcd: "cs = [a, b, c, d]"
    by (simp add: cs_def quad_corners_def Let_def)
  have eq: "map fst (snd (DrawCubeQuad t mipmapLevel variant mipLevel face layer pos sz texCoordMax gl)) =
      (if variant > 0 \<and> (face = FI_YPOS \<or> face = FI_YNEG)
         then rotate_mapCoords (if face = FI_YPOS then variant else 4 - variant) cs
         else cs)"
    unfolding DrawCubeQuad_coords[OF handle] Let_def mc ..
  from variant consider "variant = 0" | "variant = 1" | "variant = 2" | "variant = 3" by auto
  then have "(if variant > 0 \<and> (face = FI_YPOS \<or> face = FI_YNEG)
         then rotate_mapCoords (if face = FI_YPOS then variant else 4 - variant) cs
         else cs) = rotate (spec_rotation face variant) cs"
    by cases (simp_all add: abcd spec_rotation_def rotate_mapCoords_four rotate_four FI_defs)
  then show "map fst (snd (DrawCubeQuad t mipmapLevel variant mipLevel face layer pos sz
                         texCoordMax gl)) =
           rotate (spec_rotation face variant)
             (map (\<lambda>uv. Some (spec_corner face layer uv)) (quad_corners texCoordMax))"
    using eq by (simp add: cs_def)
qed

theorem DrawCubeQuad_texcoords_witness:
  "map fst (snd (DrawCubeQuad \<lparr>glTextureHandle = 7, glTarget = 34067, GetNumMips = 1\<rparr>
                   (- 1) 1 (- 1) FI_YPOS 5 (0, 0) (64, 64) (1, 1)
                   \<lparr>bound_texture = (\<lambda>_. 0), base_level = (\<lambda>_. 0), max_level = (\<lambda>_. 1000)\<rparr>)) =
     [Some (Vec4 (- 1) 1 1 5), Some (Vec4 1 1 1 5),
      Some (Vec4 1 1 (- 1) 5), Some (Vec4 (- 1) 1 (- 1) 5)] \<and>
   map fst (snd (DrawCubeQuad \<lparr>glTextureHandle = 7, glTarget = 34067, GetNumMips = 1\<rparr>
                   (- 1) 1 (- 1) FI_YNEG 5 (0, 0) (64, 64) (1, 1)
                   \<lparr>bound_texture = (\<lambda>_. 0), base_level = (\<lambda>_. 0), max_level = (\<lambda>_. 1000)\<rparr>)) =
     [Some (Vec4 1 (- 1) 1 5), Some (Vec4 (- 1) (- 1) 1 5),
      Some (Vec4 (- 1) (- 1) (- 1) 5), Some (Vec4 1 (- 1) (- 1) 5)]"
  using
    DrawCubeQuad_texcoords[of "\<lparr>glTextureHandle = 7, glTarget = 34067, GetNumMips = 1\<rparr>"
      FI_YPOS 1 5 0 0 "- 1" "- 1" "(0, 0)" "(64, 64)" "(1, 1)"
      "\<lparr>bound_texture = (\<lambda>_. 0), base_level = (\<lambda>_. 0), max_level = (\<lambda>_. 1000)\<rparr>"]
    DrawCubeQuad_texcoords[of "\<lparr>glTextureHandle = 7, glTarget = 34067, GetNumMips = 1\<rparr>"
      FI_YNEG 1 5 0 0 "- 1" "- 1" "(0, 0)" "(64, 64)" "(1, 1)"
      "\<lparr>bound_texture = (\<lambda>_. 0), base_level = (\<lambda>_. 0), max_level = (\<lambda>_. 1000)\<rparr>"]
  by (simp add: spec_rotation_def spec_corner_def spec_face_basis_def quad_corners_def
        rotate_four FI_defs)

section \<open>Zoom to fit: proofs\<close>


text \<open>Integers of at most 24 (53) bits are floats (doubles).\<close>

lemma int_D32: "\<bar>n\<bar> \<le> 2 ^ 24 \<Longrightarrow> real_of_int n \<in> D32"
  using dyadic32[of n 0] by simp

lemma int_D64: "\<bar>n\<bar> \<le> 2 ^ 53 \<Longrightarrow> real_of_int n \<in> D64"
  using dyadic64[of n 0] by simp

lemma fp_of_int32: "0 < n \<Longrightarrow> n \<le> 2 ^ 24 \<Longrightarrow> fp_of_int binary32 n = Fin (of_int n)"
proof -
  assume n: "0 < n" "n \<le> 2 ^ 24"
  have "real_of_int n \<le> 2 ^ 60"
  proof -
    have "real_of_int n \<le> 2 ^ 24" using n(2) by (metis of_int_le_iff of_int_numeral of_int_power)
    then show ?thesis by simp
  qed
  then have "real_of_int n \<le> MAX32" by (rule small_le_MAX32)
  then show ?thesis
    using n int_D32[of n] by (simp add: fp_of_int_def fp_round_id)
qed


text \<open>Operations whose exact result is a small positive integer.\<close>

lemma fdiv_int32:
  assumes "x / y = of_int k" "0 < k" "k \<le> 2 ^ 24" "y \<noteq> 0" "0 < x" "0 < y"
  shows "fdiv binary32 (Fin x) (Fin y) = Fin (of_int k)"
proof -
  have "real_of_int k \<le> 2 ^ 24" using assms(3) by (metis of_int_le_iff of_int_numeral of_int_power)
  then have "real_of_int k \<le> MAX32" by (intro small_le_MAX32) simp
  then have "fp_round binary32 False (of_int k) = Fin (of_int k)"
    using assms(2,3) int_D32[of k] by (intro fp_round_id) simp_all
  then show ?thesis using assms by (simp add: fdiv_Fin not_less_iff_gr_or_eq)
qed



lemma fmul_int64:
  assumes "x * y = of_int k" "0 < k" "k \<le> 2 ^ 24" "0 < x" "0 < y"
  shows "fmul binary64 (Fin x) (Fin y) = Fin (of_int k)"
proof -
  have "real_of_int k \<le> 2 ^ 24" using assms(3) by (metis of_int_le_iff of_int_numeral of_int_power)
  then have "real_of_int k \<le> MAX64" by (intro small_le_MAX64) simp
  then have "fp_round binary64 False (of_int k) = Fin (of_int k)"
    using assms(2,3) int_D64[of k] by (intro fp_round_id) simp_all
  then show ?thesis using assms by (simp add: fmul_Fin not_less_iff_gr_or_eq)
qed


lemma fsub32_zero: "x \<in> D32 \<Longrightarrow> 0 < x \<Longrightarrow> x \<le> MAX32 \<Longrightarrow> fsub binary32 (Fin x) (Fin 0) = Fin x"
  by (simp add: fsub_def fadd_def is_inf_def Let_def fp_round_id)



lemma fdiv_int64:
  assumes "x / y = of_int k" "0 < k" "k \<le> 2 ^ 24" "0 < x" "0 < y"
  shows "fdiv binary64 (Fin x) (Fin y) = Fin (of_int k)"
proof -
  have "real_of_int k \<le> 2 ^ 24" using assms(3) by (metis of_int_le_iff of_int_numeral of_int_power)
  then have "real_of_int k \<le> MAX64" by (intro small_le_MAX64) simp
  then have r: "fp_round binary64 False (of_int k) = Fin (of_int k)"
    using assms(2,3) int_D64[of k] by (intro fp_round_id) simp_all
  have d: "fdiv binary64 (Fin x) (Fin y) = fp_round binary64 False (x / y)"
    using assms(4,5) by (simp add: fdiv_Fin not_less_iff_gr_or_eq)
  show ?thesis unfolding d assms(1) by (rule r)
qed

text \<open>The window of 1000 pixels with no sidebar.\<close>

lemma window_1000: "fsub binary32 (fp_of_int binary32 1000) (Fin 0) = Fin 1000"
proof -
  have "fp_of_int binary32 1000 = Fin 1000" using fp_of_int32[of 1000] by simp
  moreover have "fsub binary32 (Fin 1000) (Fin 0) = Fin 1000"
    using int_D32[of 1000] small_le_MAX32[of 1000] by (intro fsub32_zero) simp_all
  ultimately show ?thesis by simp
qed



text \<open>
  A texture of width 0: the division by zero gives an infinite \<open>zw\<close>, the comparison
  \<open>zw < zh\<close> is false and the height determines the zoom.
\<close>

lemma ZoomFitToWindow_zero_width:
  "ZoomFitToWindow 1000 500 (Fin 0) (Fin 0) (Fin 100) False st =
     st\<lparr>zoomLevel := Fin 5, transX := Fin 100, transY := Fin 0\<rparr>"
proof -
  have zw: "fdiv binary64 (Fin 1000) (Fin 0) = PInf"
    by (simp add: fdiv_def is_inf_def signed_inf_def)
  have h: "fp_of_int binary32 500 = Fin 500" using fp_of_int32[of 500] by simp
  have zh: "fdiv binary32 (Fin 500) (Fin 100) = Fin 5" using fdiv_int32[of 500 100 5] by simp
  have cmp: "\<not> flt PInf (Fin 5)" by (simp add: flt_def)
  have q: "fdiv binary64 (Fin 1000) (Fin 5) = Fin 200" using fdiv_int64[of 1000 5 200] by simp
  have "fp_round binary64 False 200 = Fin 200"
    using int_D64[of 200] small_le_MAX64[of 200] by (intro fp_round_id) simp_all
  then have s: "fsub binary64 (Fin 200) (Fin 0) = Fin 200"
    by (simp add: fsub_def fadd_def is_inf_def Let_def)
  have m: "fmul binary64 (Fin (1 / 2)) (Fin 200) = Fin 100" using fmul_int64[of "1 / 2" 200 100] by simp
  show ?thesis
    using window_1000 zw h zh cmp q s m by (simp add: ZoomFitToWindow_def Let_def)
qed




subsection \<open>The accuracy of the fit\<close>













subsection \<open>Claim about zoom-to-fit\<close>




section \<open>Mip grid: proofs\<close>

lemma grid_step_wrap:
  assumes "0 < n" "Suc i mod n = 0"
  shows "grid_col n (Suc i) = grid_col n i" "grid_row n (Suc i) = Suc (grid_row n i)"
proof -
  have m: "i mod n = n - 1" using assms by (metis Suc_pred' mod_Suc nat.simps(3) diff_Suc_1)
  have d: "Suc i div n = Suc (i div n)" using assms by (simp add: div_Suc)
  show "grid_row n (Suc i) = Suc (grid_row n i)" by (simp add: grid_row_def d)
  show "grid_col n (Suc i) = grid_col n i"
    using assms(2) by (simp add: grid_col_def d m)
qed

lemma grid_step_same:
  assumes "0 < n" "Suc i mod n \<noteq> 0"
  shows "grid_row n (Suc i) = grid_row n i"
    and "real (grid_col n (Suc i)) = real (grid_col n i) + (if even (i div n) then 1 else - 1)"
proof -
  have m: "Suc i mod n = Suc (i mod n)" using assms by (simp add: mod_Suc split: if_splits)
  have d: "Suc i div n = i div n" using assms by (simp add: div_Suc)
  have lt: "Suc (i mod n) < n" using m assms(1) by (metis mod_less_divisor)
  show "grid_row n (Suc i) = grid_row n i" by (simp add: grid_row_def d)
  show "real (grid_col n (Suc i)) = real (grid_col n i) + (if even (i div n) then 1 else - 1)"
    using lt by (simp add: grid_col_def d m of_nat_diff)
qed

lemma c_rem_nat: "c_rem (int i + 1) (int n) = int (Suc i mod n)"
proof -
  have "int i + 1 = int (Suc i)" by simp
  then show ?thesis by (simp only: c_rem_def zmod_int) simp
qed

text \<open>
  The loop invariant: entered at index \<open>i\<close> at the position of cell \<open>i\<close> of the
  serpentine grid and with \<open>hOffset\<close> pointing in the direction of that cell's row, the
  loop issues the cells \<open>i\<close> to \<open>numMips - 1\<close> of the grid.
\<close>

lemma compact_loop_closed:
  assumes n: "0 < n"
  shows "i \<le> numMips \<Longrightarrow> posX = real (grid_col n i) * h \<Longrightarrow> posY = real (grid_row n i) * v \<Longrightarrow>
     hOffset = (if even (i div n) then h else - h) \<Longrightarrow>
     \<exists>rows. compact_loop i numMips (int n) posX posY hOffset v rowNum a sz =
       Some (map (grid_tile n h v a sz) [i ..< numMips], rows)"
proof (induction "numMips - i" arbitrary: i posX posY hOffset rowNum)
  case 0
  then have "i = numMips" by simp
  then show ?case by (subst compact_loop.simps) simp
next
  case (Suc d)
  then have lt: "i < numMips" by simp
  have upt: "[i ..< numMips] = i # [Suc i ..< numMips]" using lt by (simp add: upt_conv_Cons)
  have nz: "int n \<noteq> 0" using n by simp
  have d: "d = numMips - Suc i" using Suc.hyps(2) by simp
  have le: "Suc i \<le> numMips" using lt by simp
  show ?case
  proof (cases "Suc i mod n = 0")
    case True
    have px: "posX = real (grid_col n (Suc i)) * h"
      using Suc.prems(2) grid_step_wrap(1)[OF n True] by simp
    have py: "posY + v = real (grid_row n (Suc i)) * v"
      using Suc.prems(3) grid_step_wrap(2)[OF n True] by (simp add: algebra_simps)
    have dv: "Suc i div n = Suc (i div n)" using True by (simp add: div_Suc)
    have ho: "- hOffset = (if even (Suc i div n) then h else - h)"
      using Suc.prems(4) by (simp add: dv)
    obtain rows where IH: "compact_loop (Suc i) numMips (int n) posX (posY + v) (- hOffset) v
         (rowNum + 1) a sz = Some (map (grid_tile n h v a sz) [Suc i ..< numMips], rows)"
      using Suc.hyps(1)[OF d le px py ho] by blast
    show ?thesis
      apply (subst compact_loop.simps)
      using lt nz True IH Suc.prems(2,3)
      by (simp add: c_rem_nat upt grid_tile_def)
  next
    case False
    have px: "posX + hOffset = real (grid_col n (Suc i)) * h"
      using Suc.prems(2,4) grid_step_same(2)[OF n False] by (simp add: algebra_simps)
    have py: "posY = real (grid_row n (Suc i)) * v"
      using Suc.prems(3) grid_step_same(1)[OF n False] by simp
    have dv: "Suc i div n = i div n" using False by (simp add: div_Suc)
    have ho: "hOffset = (if even (Suc i div n) then h else - h)"
      using Suc.prems(4) by (simp add: dv)
    obtain rows where IH: "compact_loop (Suc i) numMips (int n) (posX + hOffset) posY hOffset v
         rowNum a sz = Some (map (grid_tile n h v a sz) [Suc i ..< numMips], rows)"
      using Suc.hyps(1)[OF d le px py ho] by blast
    show ?thesis
      apply (subst compact_loop.simps)
      using lt nz False IH Suc.prems(2,3)
      by (simp add: c_rem_nat upt grid_tile_def)
  qed
qed


lemma numHor_positive:
  assumes "0 < numMips" "0 < texW" "0 < texH"
  shows "0 < numHor_of numMips texW texH"
proof -
  have "0 < of_int numMips * texH / texW" using assms by simp
  then have "0 < sqrt (of_int numMips * texH / texW)" by simp
  then show ?thesis unfolding numHor_of_def by linarith
qed

lemma grid_tile_neighbours:
  assumes "0 < n"
  shows "grid_neighbours h v (quad_pos (grid_tile n h v a sz i))
           (quad_pos (grid_tile n h v a sz (Suc i)))"
proof (cases "Suc i mod n = 0")
  case True
  show ?thesis
    using grid_step_wrap[OF assms True]
    by (simp add: grid_neighbours_def grid_tile_def algebra_simps)
next
  case False
  show ?thesis
    using grid_step_same[OF assms False]
    by (simp add: grid_neighbours_def grid_tile_def algebra_simps)
qed

lemma neighbours_share_edge:
  assumes "grid_neighbours (fst sz) (snd sz) (quad_pos s) (quad_pos t)" "quad_size s = sz"
    "0 < fst sz" "0 < snd sz"
  shows "share_edge s t"
  using assms by (auto simp: grid_neighbours_def share_edge_def)

text \<open>
  Claim C9, amended. In \<open>MIPMAPS_COMPACT\<close> mode with \<open>viewAtSameSize\<close>, for a texture of
  positive size with at least one mip level, \<open>ceil(sqrt(numMips * texH / texW))\<close> is the
  number of tiles per row (the number of columns, at least 1), not the number of rows.
  Tile \<open>i\<close> lies in row \<open>i div numHor\<close>; even rows run left to right and odd rows right
  to left. For every \<open>i < numMips - 1\<close>, tile \<open>i + 1\<close> lies one cell step to the right
  of, to the left of, or below tile \<open>i\<close>, a cell step being the tile size plus the
  spacing; the two tiles share an edge when the spacing is 0.
\<close>

theorem compact_layout_serpentine:
  assumes "0 < numMips" "0 < texW" "0 < texH"
  shows "(let n = nat (numHor_of numMips texW texH);
              h = texW + of_int spacing;
              v = texH + of_int spacing
          in 0 < n \<and>
             (\<exists>tiles rows.
                DrawTexture_compact texW texH numMips spacing a = Some (tiles, rows) \<and>
                tiles = map (grid_tile n h v a (texW, texH)) [0 ..< nat numMips] \<and>
                (\<forall>i. Suc i < nat numMips \<longrightarrow>
                   grid_neighbours h v (quad_pos (tiles ! i)) (quad_pos (tiles ! Suc i))) \<and>
                (spacing = 0 \<longrightarrow>
                   (\<forall>i. Suc i < nat numMips \<longrightarrow> share_edge (tiles ! i) (tiles ! Suc i)))))"
proof -
  define n where "n = nat (numHor_of numMips texW texH)"
  define h where "h = texW + of_int spacing"
  define v where "v = texH + of_int spacing"
  define tiles where "tiles = map (grid_tile n h v a (texW, texH)) [0 ..< nat numMips]"
  have n: "0 < n" using numHor_positive[OF assms] by (simp add: n_def)
  have nn: "numHor_of numMips texW texH = int n" using n by (simp add: n_def)
  have ok: "\<not> (texW = 0 \<or> of_int numMips * texH / texW < 0)"
    using assms by (simp add: not_less)
  obtain rows where loop: "compact_loop 0 (nat numMips) (int n) 0 0 h v 0 a (texW, texH) =
      Some (tiles, rows)"
    using compact_loop_closed[OF n, of 0 "nat numMips" 0 h 0 v h 0 a "(texW, texH)"]
    by (auto simp: grid_col_def grid_row_def tiles_def)
  have D: "DrawTexture_compact texW texH numMips spacing a = Some (tiles, rows)"
    using ok loop by (simp add: DrawTexture_compact_def Let_def nn h_def v_def)
  have nth: "tiles ! i = grid_tile n h v a (texW, texH) i" if "i < nat numMips" for i
    using that by (simp add: tiles_def)
  have adj: "grid_neighbours h v (quad_pos (tiles ! i)) (quad_pos (tiles ! Suc i))"
    if "Suc i < nat numMips" for i
    using that grid_tile_neighbours[OF n, of h v a "(texW, texH)" i] by (simp add: nth)
  have edge: "share_edge (tiles ! i) (tiles ! Suc i)" if "Suc i < nat numMips" "spacing = 0" for i
  proof -
    have hv: "h = texW" "v = texH" using that(2) by (simp_all add: h_def v_def)
    have sz: "quad_size (tiles ! i) = (texW, texH)"
      using that(1) by (simp add: nth grid_tile_def)
    show ?thesis
      using adj[OF that(1)] sz assms(2,3)
      by (intro neighbours_share_edge[where sz = "(texW, texH)"]) (simp_all add: hv)
  qed
  show ?thesis
    unfolding Let_def n_def[symmetric] h_def[symmetric] v_def[symmetric]
    using n D adj edge by (auto simp: tiles_def)
qed

lemma sqrt_16: "sqrt 16 = 4"
proof -
  have "sqrt ((4::real)\<^sup>2) = 4" by (simp del: power2_eq_square)
  then show ?thesis by simp
qed

text \<open>
  Claim C9, as stated, fails: the square root gives the number of tiles in a row. A
  texture of 2 by 8 pixels with 4 mip levels has \<open>numHor = 4\<close>; its four tiles lie in a
  single row, where the claim has 4 rows.
\<close>

theorem compact_rows_counterexample:
  "map_option (\<lambda>(tiles, rows). (map quad_pos tiles, row_count tiles))
     (DrawTexture_compact 2 8 4 2 0) = Some ([(0, 0), (4, 0), (8, 0), (12, 0)], 1) \<and>
   spec_row_count 4 2 8 = 4"
proof -
  have nh: "numHor_of 4 2 8 = 4" by (simp add: numHor_of_def sqrt_16)
  have sp: "spec_row_count 4 2 8 = 4" by (simp add: spec_row_count_def sqrt_16)
  have "DrawTexture_compact 2 8 4 2 0 =
      Some (map (\<lambda>(k, x). \<lparr>quad_mip = k, quad_array = 0, quad_pos = (x, 0), quad_size = (2, 8)\<rparr>)
              [(0, 0), (1, 4), (2, 8), (3, 12)], 1)"
    by (simp add: DrawTexture_compact_def nh Let_def compact_loop.simps c_rem_def)
  then show ?thesis using sp by (simp add: row_count_def)
qed

lemma sqrt_9: "sqrt 9 = 3"
proof -
  have "sqrt ((3::real)\<^sup>2) = 3" by (simp del: power2_eq_square)
  then show ?thesis by simp
qed

lemma upt_9: "[0 ..< 9] = [0, 1, 2, 3, 4, 5, 6, 7, 8::nat]"
  by code_simp

theorem compact_layout_serpentine_witness:
  "map_option (\<lambda>(tiles, rows). map quad_pos tiles) (DrawTexture_compact 256 256 9 2 0) =
     Some [(0, 0), (258, 0), (516, 0),
           (516, 258), (258, 258), (0, 258),
           (0, 516), (258, 516), (516, 516)] \<and>
   (case DrawTexture_compact 256 256 9 0 0 of
      None \<Rightarrow> False
    | Some (tiles, rows) \<Rightarrow> share_edge (tiles ! 2) (tiles ! 3))"
proof -
  have nh: "numHor_of 9 256 256 = 3" by (simp add: numHor_of_def sqrt_9)
  have a: "map_option (\<lambda>(tiles, rows). map quad_pos tiles) (DrawTexture_compact 256 256 9 2 0) =
     Some [(0, 0), (258, 0), (516, 0),
           (516, 258), (258, 258), (0, 258),
           (0, 516), (258, 516), (516, 516)]"
    using compact_layout_serpentine[of 9 256 256 2 0]
    by (auto simp: nh Let_def grid_tile_def grid_col_def grid_row_def upt_9)
  have b: "(case DrawTexture_compact 256 256 9 0 0 of
      None \<Rightarrow> False
    | Some (tiles, rows) \<Rightarrow> share_edge (tiles ! 2) (tiles ! 3))"
  proof -
    obtain tiles rows where D: "DrawTexture_compact 256 256 9 0 0 = Some (tiles, rows)"
      and E: "\<forall>i. Suc i < nat 9 \<longrightarrow> share_edge (tiles ! i) (tiles ! Suc i)"
      using compact_layout_serpentine[of 9 256 256 0 0] unfolding Let_def by auto
    have "Suc 2 < nat 9" by simp
    with E have "share_edge (tiles ! 2) (tiles ! Suc 2)" by blast
    moreover have "Suc 2 = 3" by simp
    ultimately have "share_edge (tiles ! 2) (tiles ! 3)" by simp
    then show ?thesis using D by simp
  qed
  show ?thesis using a b by simp
qed

end
